theory Spec2Isabelle
  imports Main "HOL-Library.Word"
begin

unbundle bit_operations_syntax

section \<open>The wheel decoder of TMWheels.ino\<close>

text \<open>
  The sketch polls a Thrustmaster wheel rim over SPI, five bytes per poll, works out which
  rim is attached, and turns bit changes into calls on a BLE gamepad object. This theory
  embeds the decision logic of \<^verbatim>\<open>loop()\<close>, \<^verbatim>\<open>setButton\<close> and
  \<^verbatim>\<open>convertHat\<close>.

  What is modelled and how:
  \<^item> a \<^verbatim>\<open>byte\<close> is an \<open>8 word\<close>; the \<^verbatim>\<open>int\<close> variables hold values between
    \<open>-1\<close> and \<open>255\<close> only, so they are \<open>int\<close>;
  \<^item> the global arrays are lists; the globals that survive from one call of
    \<^verbatim>\<open>loop()\<close> to the next are the fields of the record \<open>state\<close>. The globals
    \<^verbatim>\<open>wheelbyte\<close>, \<^verbatim>\<open>fourthbyte\<close>, \<^verbatim>\<open>fifthbyte\<close>, \<^verbatim>\<open>btnState\<close> and
    \<^verbatim>\<open>buttonsreset\<close> are written in every call before they are read, so they are
    bound locally;
  \<^item> the bytes that \<^verbatim>\<open>hspi->transfer(0x00)\<close> returns are the input: a list of polls,
    each poll the five bytes of one read. A call of \<^verbatim>\<open>loop()\<close> consumes one poll, and
    one more for every turn of its waiting loop;
  \<^item> the calls on \<^verbatim>\<open>bleGamepad\<close> are the output, in the order they are made. The
    argument of \<^verbatim>\<open>press\<close> and \<^verbatim>\<open>release\<close> is recorded as the \<^verbatim>\<open>int\<close> the sketch
    passes;
  \<^item> reading the local \<^verbatim>\<open>hatstate\<close> of \<^verbatim>\<open>convertHat\<close> before it is assigned is the
    error \<open>UninitialisedHatstate\<close>;
  \<^item> pin writes, delays and the debug printing are left out.
\<close>

subsection \<open>Data\<close>

type_synonym byte = "8 word"

text \<open>The five bytes one poll receives from \<^verbatim>\<open>hspi->transfer\<close>, before inversion.\<close>

type_synonym poll = "byte \<times> byte \<times> byte \<times> byte \<times> byte"

datatype call = SetHat1 int | Press int | Release int | SendReport

datatype error = UninitialisedHatstate

record state =
  currBytes :: "byte list"
  prevBytes :: "byte list"
  wheelID :: int
  joyBtnState :: bool
  prevJoyBtnState :: bool
  wheelIdentified :: bool
  bit2btn :: "int list"

definition pos :: "byte list" where
  "pos = [0x80, 0x40, 0x20, 0x10, 0x08, 0x04, 0x02, 0x01]"

definition unmappedBtn :: "int list" where
  "unmappedBtn = [-1,-1,-1,-1,-1,-1,-1,-1,  -1,-1,-1,-1,-1,-1,-1,-1,
                  -1,-1,-1,-1,-1,-1,-1,-1,  -1,-1,-1,-1,-1,-1,-1,-1]"

definition F599Btn :: "int list" where
  "F599Btn = [-1,-1,-1,0,1,2,3,4,  5,6,7,8,9,-1,-1,12,
              33,32,34,31,-1,-1,-1,-1,  -1,-1,-1,-1,-1,-1,-1,-1]"

definition R383Btn :: "int list" where
  "R383Btn = [-1,-1,-1,-1,-1,-1,-1,5,  1,4,8,-1,6,12,7,-1,
              2,9,34,31,32,33,3,0,  -1,-1,-1,-1,-1,-1,-1,-1]"

definition F1Btn :: "int list" where
  "F1Btn = [4,-1,-1,-1,0,1,2,3,  12,5,6,7,8,9,10,11,
            17,33,32,34,31,18,19,20,  -1,15,13,14,16,-1,-1,-1]"

text \<open>
  Modelled from the spec: the macro \<^verbatim>\<open>HAT_CENTERED\<close> is declared in the BleGamepad
  library's header, which is not among the sources. The specification says that the
  centred state is a fifth canonical value of its own, none of the direction codes
  1 to 8; the value 0 is taken for it.
\<close>

definition HAT_CENTERED :: int where
  "HAT_CENTERED = 0"

text \<open>The globals as the sketch initialises them.\<close>

definition initial :: state where
  "initial = \<lparr> currBytes = [0, 0, 0, 0, 0], prevBytes = [0, 0, 0, 0, 0], wheelID = 0,
     joyBtnState = False, prevJoyBtnState = False, wheelIdentified = False,
     bit2btn = unmappedBtn \<rparr>"

subsection \<open>Reading a frame\<close>

text \<open>
  \<^verbatim>\<open>for(int i = 0; i < 5; i++) currBytes[i] = ~hspi->transfer(0x00);\<close>
\<close>

fun readWheel :: "poll \<Rightarrow> byte list" where
  "readWheel (t0, t1, t2, t3, t4) = [NOT t0, NOT t1, NOT t2, NOT t3, NOT t4]"

text \<open>
  \<^verbatim>\<open>wheelbyte = currBytes[0] & B11100000; fourthbyte = currBytes[3] & B00100000;
  fifthbyte = currBytes[4] & B00001111;\<close>
\<close>

definition wheelbyte :: "byte list \<Rightarrow> int" where
  "wheelbyte cb = uint (cb ! 0 AND 0xE0)"

definition fourthbyte :: "byte list \<Rightarrow> int" where
  "fourthbyte cb = uint (cb ! 3 AND 0x20)"

definition fifthbyte :: "byte list \<Rightarrow> int" where
  "fifthbyte cb = uint (cb ! 4 AND 0x0F)"

text \<open>The negation of the waiting loop's condition.\<close>

definition plugged :: "byte list \<Rightarrow> bool" where
  "plugged cb \<longleftrightarrow> \<not> (wheelbyte cb \<noteq> 192 \<and> wheelbyte cb \<noteq> 160 \<and> wheelbyte cb \<noteq> 32)"

subsection \<open>setButton and convertHat\<close>

definition setButton :: "int \<Rightarrow> bool \<Rightarrow> call list" where
  "setButton button buttonState =
     (if buttonState = False then [Release button]
      else if buttonState = True then [Press button]
      else [])"

text \<open>
  The four tests of \<^verbatim>\<open>convertHat\<close> run one after the other on a local that starts
  unassigned (\<open>None\<close>); the call \<^verbatim>\<open>bleGamepad.setHat1(hatstate)\<close> then reads it.
\<close>

definition convertHat :: "int \<Rightarrow> error + call list" where
  "convertHat hat =
     (let hatstate = None;
          hatstate = (if hat = 0 then Some 1 else hatstate);
          hatstate = (if hat = 1 then Some 3 else hatstate);
          hatstate = (if hat = 2 then Some 5 else hatstate);
          hatstate = (if hat = 3 then Some 7 else hatstate)
      in case hatstate of
           None \<Rightarrow> Inl UninitialisedHatstate
         | Some h \<Rightarrow> Inr [SetHat1 h])"

subsection \<open>The waiting loop\<close>

text \<open>The calls that release the hat and the buttons 0 to 20, one button at a time.\<close>

definition resetButtons :: "call list" where
  "resetButtons = SetHat1 HAT_CENTERED # concat (map (\<lambda>b. setButton (int b) False) [0..<21])"

text \<open>
  \<^verbatim>\<open>while ((wheelbyte != 192) and (wheelbyte != 160) and (wheelbyte != 32))\<close>: every turn
  clears \<^verbatim>\<open>wheelIdentified\<close>, resets the buttons if \<^verbatim>\<open>buttonsreset\<close> is still false,
  and reads the next poll. The result is the calls made, and the state and the polls
  left when the loop was left; \<open>None\<close> in their place when the polls ran out while the
  loop was still waiting.
\<close>

fun waitForWheel :: "state \<Rightarrow> bool \<Rightarrow> poll list \<Rightarrow> call list \<times> (state \<times> poll list) option" where
  "waitForWheel s buttonsreset ps =
     (if plugged (currBytes s) then ([], Some (s, ps))
      else
        (let s = s\<lparr>wheelIdentified := False\<rparr>;
             cs = (if buttonsreset = False then resetButtons else [])
         in case ps of
              [] \<Rightarrow> (cs, None)
            | p # ps' \<Rightarrow>
                (case waitForWheel (s\<lparr>currBytes := readWheel p\<rparr>) True ps' of
                   (ds, r) \<Rightarrow> (cs @ ds, r))))"

subsection \<open>Identification\<close>

text \<open>
  The chain of tests after the waiting loop, with the nesting the braces of the sketch
  give it: the two tests for header 32 are the \<^verbatim>\<open>else\<close> branches of
  \<^verbatim>\<open>if (wheelIdentified == false)\<close>.
\<close>

definition identify :: "state \<Rightarrow> state" where
  "identify s =
     (if wheelIdentified s = False then
        (if wheelbyte (currBytes s) = 160 \<and> fifthbyte (currBytes s) = 0
         then s\<lparr>wheelID := 2, bit2btn := F599Btn, wheelIdentified := True\<rparr>
         else s)
      else if wheelbyte (currBytes s) = 32 then
        (if (fourthbyte (currBytes s) = 0 \<and> fifthbyte (currBytes s) = 0)
            \<or> (currBytes s ! 3 = 255 \<and> currBytes s ! 4 = 255)
         then s\<lparr>wheelID := 3, bit2btn := R383Btn, wheelIdentified := True\<rparr>
         else s)
      else if wheelbyte (currBytes s) = 32 \<and> fifthbyte (currBytes s) = 15
        then s\<lparr>wheelID := 1, bit2btn := F1Btn, wheelIdentified := True\<rparr>
      else s)"

subsection \<open>Differencing\<close>

text \<open>The body of the two nested loops, for byte \<open>i\<close> and mask \<open>pos[b]\<close>.\<close>

definition processBit :: "int list \<Rightarrow> byte list \<Rightarrow> byte list \<Rightarrow> nat \<Rightarrow> nat \<Rightarrow> error + call list" where
  "processBit tbl cb pb i b =
     (if (cb ! i AND pos ! b) \<noteq> (pb ! i AND pos ! b) then
        (let btnState = ((cb ! i AND pos ! b) \<noteq> 0) in
         if tbl ! (i * 8 + b) \<ge> 31 \<and> tbl ! (i * 8 + b) \<le> 34 then
           (if btnState = False then Inr [SetHat1 HAT_CENTERED]
            else convertHat (tbl ! (i * 8 + b) - 31))
         else Inr (setButton (tbl ! (i * 8 + b)) btnState))
      else Inr [])"

text \<open>A counted loop: the body runs for each index in turn and stops at the first error.\<close>

fun forEach :: "nat list \<Rightarrow> (nat \<Rightarrow> error + call list) \<Rightarrow> error + call list" where
  "forEach [] body = Inr []"
| "forEach (n # ns) body =
     (case body n of
        Inl e \<Rightarrow> Inl e
      | Inr cs \<Rightarrow> (case forEach ns body of Inl e \<Rightarrow> Inl e | Inr ds \<Rightarrow> Inr (cs @ ds)))"

text \<open>
  \<^verbatim>\<open>for(int i=0; i<4; i++) for(int b=0; b<8; b++) ...\<close>
\<close>

definition diffBytes :: "int list \<Rightarrow> byte list \<Rightarrow> byte list \<Rightarrow> error + call list" where
  "diffBytes tbl cb pb = forEach [0..<4] (\<lambda>i. forEach [0..<8] (\<lambda>b. processBit tbl cb pb i b))"

text \<open>
  The R383's push on the middle of the D-pad:
  \<^verbatim>\<open>joyBtnState = (currBytes[3] & pos[0]) && !(currBytes[2] & 0x3c);\<close>
\<close>

definition hatPushed :: "byte list \<Rightarrow> bool" where
  "hatPushed cb \<longleftrightarrow> (cb ! 3 AND pos ! 0) \<noteq> 0 \<and> \<not> ((cb ! 2 AND 0x3c) \<noteq> 0)"

definition joyButton :: "state \<Rightarrow> state \<times> call list" where
  "joyButton s =
     (if wheelIdentified s \<and> wheelID s = 3 then
        (let s = s\<lparr>joyBtnState := hatPushed (currBytes s)\<rparr> in
         (s, if joyBtnState s \<noteq> prevJoyBtnState s then setButton 13 (joyBtnState s) else []))
      else (s, []))"

subsection \<open>One call of loop()\<close>

text \<open>
  The argument \<open>connected\<close> is what \<^verbatim>\<open>bleGamepad.isConnected()\<close> returns. The result
  is the calls made and, when the call returned, the state and the polls left.
\<close>

definition loop :: "bool \<Rightarrow> state \<Rightarrow> poll list \<Rightarrow> error + (call list \<times> (state \<times> poll list) option)" where
  "loop connected s ps =
     (if connected then
        (case ps of
           [] \<Rightarrow> Inr ([], None)
         | p # ps \<Rightarrow>
            (case waitForWheel (s\<lparr>currBytes := readWheel p\<rparr>) False ps of
               (rs, None) \<Rightarrow> Inr (rs, None)
             | (rs, Some (s, ps)) \<Rightarrow>
                (let s = identify s in
                 case (if wheelIdentified s then diffBytes (bit2btn s) (currBytes s) (prevBytes s)
                       else Inr []) of
                   Inl e \<Rightarrow> Inl e
                 | Inr ds \<Rightarrow>
                    (case joyButton s of
                       (s, js) \<Rightarrow>
                         Inr (rs @ ds @ js @ [SendReport],
                              Some (s\<lparr>prevBytes := currBytes s,
                                      prevJoyBtnState := joyBtnState s\<rparr>, ps))))))
      else Inr ([], Some (s, ps)))"

text \<open>The states the sketch can be in between two calls of \<^verbatim>\<open>loop()\<close>.\<close>

inductive reachable :: "state \<Rightarrow> bool" where
  start: "reachable initial"
| step: "reachable s \<Longrightarrow> loop connected s ps = Inr (cs, Some (s', ps')) \<Longrightarrow> reachable s'"


subsection \<open>Auxiliary notions for the proofs\<close>

text \<open>The test that loads the R383 table, as a predicate on the frame.\<close>

definition sparcoPattern :: "byte list \<Rightarrow> bool" where
  "sparcoPattern cb \<longleftrightarrow> wheelbyte cb = 32 \<and>
     ((fourthbyte cb = 0 \<and> fifthbyte cb = 0) \<or> (cb ! 3 = 255 \<and> cb ! 4 = 255))"

text \<open>What holds of the globals between two calls of \<^verbatim>\<open>loop()\<close>.\<close>

definition cycleInv :: "state \<Rightarrow> bool" where
  "cycleInv s \<longleftrightarrow>
     currBytes s = prevBytes s \<and>
     prevJoyBtnState s = joyBtnState s \<and>
     (wheelIdentified s \<longrightarrow> plugged (prevBytes s)) \<and>
     (wheelIdentified s \<and> wheelID s = 3 \<longrightarrow> joyBtnState s = hatPushed (prevBytes s)) \<and>
     (wheelIdentified s \<and> wheelID s \<noteq> 3 \<longrightarrow> \<not> sparcoPattern (prevBytes s)) \<and>
     (wheelID s = 3 \<longrightarrow> bit2btn s = R383Btn) \<and>
     (wheelIdentified s \<longrightarrow> bit2btn s \<in> {F599Btn, R383Btn}) \<and>
     bit2btn s \<in> {unmappedBtn, F599Btn, R383Btn}"

text \<open>The waiting loop writes \<^verbatim>\<open>currBytes\<close> and \<^verbatim>\<open>wheelIdentified\<close> only.\<close>

definition sameButCurr :: "state \<Rightarrow> state \<Rightarrow> bool" where
  "sameButCurr s2 s0 \<longleftrightarrow> prevBytes s2 = prevBytes s0 \<and> wheelID s2 = wheelID s0 \<and>
     joyBtnState s2 = joyBtnState s0 \<and> prevJoyBtnState s2 = prevJoyBtnState s0 \<and>
     bit2btn s2 = bit2btn s0"

subsection \<open>The documented button numbers\<close>

text \<open>
  The header comment of the sketch lists, for each wheel, what every bit of Byte 1 to
  Byte 4 carries, bit 7 first. The loops test byte \<open>i\<close> of the frame against the mask
  \<^verbatim>\<open>pos[b]\<close>, which is bit \<open>7 - b\<close>, and look up entry \<open>i * 8 + b\<close>: this is the
  entry of bit \<open>bitNo\<close> of Byte \<open>byteNo\<close>.
\<close>

definition tableIndex :: "nat \<Rightarrow> nat \<Rightarrow> nat" where
  "tableIndex byteNo bitNo = (byteNo - 1) * 8 + (7 - bitNo)"

text \<open>
  The tables count buttons from 0, the comment from 1:
  \<^verbatim>\<open>setButton(13, joyBtnState);  // press button 14\<close>.
\<close>

definition officialNumber :: "int \<Rightarrow> int" where
  "officialNumber button = button + 1"

text \<open>The state after one call that read the frame \<open>(0xA0, 0, 0, 0, 0)\<close> of an idle 599xx wheel.\<close>

definition idle599 :: state where
  "idle599 = \<lparr> currBytes = [0xA0, 0, 0, 0, 0], prevBytes = [0xA0, 0, 0, 0, 0], wheelID = 2,
     joyBtnState = False, prevJoyBtnState = False, wheelIdentified = True,
     bit2btn = F599Btn \<rparr>"

text \<open>The state after one call that read the frame \<open>(0xB0, 0, 0, 0, 0)\<close>: a 599xx wheel with
  its left paddle held.\<close>

definition held599 :: state where
  "held599 = \<lparr> currBytes = [0xB0, 0, 0, 0, 0], prevBytes = [0xB0, 0, 0, 0, 0], wheelID = 2,
     joyBtnState = False, prevJoyBtnState = False, wheelIdentified = True,
     bit2btn = F599Btn \<rparr>"

text \<open>The state after a further call, from \<open>idle599\<close>, that read the frame
  \<open>(0x20, 0, 0, 0x80, 0)\<close>: an R383 wheel with the middle of its D-pad pushed.\<close>

definition pushed383 :: state where
  "pushed383 = \<lparr> currBytes = [0x20, 0, 0, 0x80, 0], prevBytes = [0x20, 0, 0, 0x80, 0], wheelID = 3,
     joyBtnState = True, prevJoyBtnState = True, wheelIdentified = True,
     bit2btn = R383Btn \<rparr>"

text \<open>Whether the loop body sees bit \<open>b\<close> of byte \<open>i\<close> differ between the two frames.\<close>

definition changed :: "byte list \<Rightarrow> byte list \<Rightarrow> nat \<times> nat \<Rightarrow> bool" where
  "changed cb pb ib \<longleftrightarrow> (cb ! fst ib AND pos ! snd ib) \<noteq> (pb ! fst ib AND pos ! snd ib)"

text \<open>Whether a call is \<^verbatim>\<open>bleGamepad.setHat1(...)\<close>.\<close>

fun isSetHat1 :: "call \<Rightarrow> bool" where
  "isSetHat1 (SetHat1 h) = True"
| "isSetHat1 c = False"

text \<open>The state after a further call, from \<open>pushed383\<close>, that read the frame
  \<open>(0x20, 0, 0x20, 0x80, 0)\<close>: the R383 with its D-pad pressed to the left.\<close>

definition left383 :: state where
  "left383 = \<lparr> currBytes = [0x20, 0, 0x20, 0x80, 0], prevBytes = [0x20, 0, 0x20, 0x80, 0], wheelID = 3,
     joyBtnState = False, prevJoyBtnState = False, wheelIdentified = True,
     bit2btn = R383Btn \<rparr>"

section \<open>Properties of the parts\<close>

subsection \<open>The waiting loop\<close>

declare waitForWheel.simps [simp del]

lemma waitForWheel_plugged:
  "plugged (currBytes s) \<Longrightarrow> waitForWheel s br ps = ([], Some (s, ps))"
  by (simp add: waitForWheel.simps)

lemma waitForWheel_Nil:
  "\<not> plugged (currBytes s) \<Longrightarrow> waitForWheel s br [] = (if br then [] else resetButtons, None)"
  by (simp add: waitForWheel.simps)

lemma waitForWheel_Cons:
  "\<not> plugged (currBytes s) \<Longrightarrow>
   waitForWheel s br (p # ps) =
     (case waitForWheel (s\<lparr>wheelIdentified := False, currBytes := readWheel p\<rparr>) True ps of
        (ds, r) \<Rightarrow> ((if br then [] else resetButtons) @ ds, r))"
  by (simp add: waitForWheel.simps[of s br "p # ps"] Let_def)

lemma length_readWheel [simp]: "length (readWheel p) = 5"
  by (cases p) simp

text \<open>While every poll is unrecognised the loop goes on waiting, and resets at most once.\<close>

lemma waitForWheel_waiting:
  "\<not> plugged (currBytes s) \<Longrightarrow> \<forall>v\<in>set us. \<not> plugged (readWheel v) \<Longrightarrow>
   waitForWheel s br us = (if br then [] else resetButtons, None)"
proof (induction us arbitrary: s br)
  case Nil
  then show ?case by (simp add: waitForWheel_Nil)
next
  case (Cons u us)
  have "waitForWheel (s\<lparr>wheelIdentified := False, currBytes := readWheel u\<rparr>) True us = ([], None)"
    using Cons.IH[of "s\<lparr>wheelIdentified := False, currBytes := readWheel u\<rparr>" True] Cons.prems
    by simp
  then show ?case using Cons.prems by (simp add: waitForWheel_Cons)
qed

text \<open>The first recognised poll ends the loop, with \<^verbatim>\<open>wheelIdentified\<close> cleared.\<close>

lemma waitForWheel_replugged:
  "\<not> plugged (currBytes s) \<Longrightarrow> \<forall>v\<in>set us. \<not> plugged (readWheel v) \<Longrightarrow>
   plugged (readWheel p) \<Longrightarrow>
   waitForWheel s br (us @ p # ps) =
     (if br then [] else resetButtons,
      Some (s\<lparr>currBytes := readWheel p, wheelIdentified := False\<rparr>, ps))"
proof (induction us arbitrary: s br)
  case Nil
  then show ?case by (simp add: waitForWheel_Cons waitForWheel_plugged)
next
  case (Cons u us)
  have "waitForWheel (s\<lparr>wheelIdentified := False, currBytes := readWheel u\<rparr>) True (us @ p # ps)
        = ([], Some (s\<lparr>currBytes := readWheel p, wheelIdentified := False\<rparr>, ps))"
    using Cons.IH[of "s\<lparr>wheelIdentified := False, currBytes := readWheel u\<rparr>" True] Cons.prems
    by simp
  then show ?case using Cons.prems by (simp add: waitForWheel_Cons)
qed

subsection \<open>convertHat and the loop body\<close>

text \<open>The mask \<^verbatim>\<open>pos[b]\<close> is bit \<open>7 - b\<close> of the byte.\<close>

lemma pos_bit:
  assumes "bitNo \<le> 7"
  shows "pos ! (7 - bitNo) = 2 ^ bitNo"
proof -
  from assms have "bitNo \<in> {0, 1, 2, 3, 4, 5, 6, 7}" by auto
  then show ?thesis by (auto simp: pos_def)
qed

lemma convertHat_cases:
  "convertHat hat =
     (if hat = 0 then Inr [SetHat1 1] else if hat = 1 then Inr [SetHat1 3]
      else if hat = 2 then Inr [SetHat1 5] else if hat = 3 then Inr [SetHat1 7]
      else Inl UninitialisedHatstate)"
  by (simp add: convertHat_def)

lemma convertHat_tag:
  assumes "31 \<le> e" and "e \<le> 34"
  shows "convertHat (e - 31) = Inr [SetHat1 (2 * (e - 31) + 1)]"
proof -
  from assms have "e = 31 \<or> e = 32 \<or> e = 33 \<or> e = 34" by arith
  then show ?thesis by (auto simp: convertHat_cases)
qed

lemma processBit_Inr: "\<exists>cs. processBit tbl cb pb i b = Inr cs"
  by (simp add: processBit_def Let_def convertHat_tag)

lemma forEach_Inr:
  "(\<And>n. n \<in> set ns \<Longrightarrow> \<exists>cs. body n = Inr cs) \<Longrightarrow>
   forEach ns body = Inr (concat (map (\<lambda>n. projr (body n)) ns))"
proof (induction ns)
  case Nil
  then show ?case by simp
next
  case (Cons n ns)
  obtain cs where "body n = Inr cs" using Cons.prems[of n] by auto
  moreover have "forEach ns body = Inr (concat (map (\<lambda>n. projr (body n)) ns))"
    using Cons by simp
  ultimately show ?case by simp
qed

text \<open>The differencing loops never fail: their calls are those of the 32 bodies, in order.\<close>

lemma diffBytes_Inr:
  "diffBytes tbl cb pb =
     Inr (concat (map (\<lambda>i. concat (map (\<lambda>b. projr (processBit tbl cb pb i b)) [0..<8])) [0..<4]))"
proof -
  have inner: "forEach [0..<8] (\<lambda>b. processBit tbl cb pb i b)
      = Inr (concat (map (\<lambda>b. projr (processBit tbl cb pb i b)) [0..<8]))" for i
    by (rule forEach_Inr) (rule processBit_Inr)
  show ?thesis unfolding diffBytes_def
    by (subst forEach_Inr) (simp_all add: inner)
qed

lemma processBit_same: "processBit tbl cb cb i b = Inr []"
  by (simp add: processBit_def)

lemma diffBytes_same: "diffBytes tbl cb cb = Inr []"
  by (simp add: diffBytes_Inr processBit_same)

subsection \<open>A whole call of loop()\<close>

lemma waitForWheel_result:
  "waitForWheel s0 br ps = (rs, r) \<Longrightarrow>
   (rs = [] \<or> (\<not> br \<and> rs = resetButtons)) \<and>
   (\<forall>s2 ps2. r = Some (s2, ps2) \<longrightarrow>
      plugged (currBytes s2) \<and> sameButCurr s2 s0 \<and> (wheelIdentified s2 \<longrightarrow> s2 = s0))"
proof (induction ps arbitrary: s0 br rs r)
  case Nil
  then show ?case
    by (cases "plugged (currBytes s0)")
       (auto simp: waitForWheel_plugged waitForWheel_Nil sameButCurr_def)
next
  case (Cons p ps)
  show ?case
  proof (cases "plugged (currBytes s0)")
    case True
    with Cons.prems show ?thesis by (auto simp: waitForWheel_plugged sameButCurr_def)
  next
    case False
    let ?s1 = "s0\<lparr>wheelIdentified := False, currBytes := readWheel p\<rparr>"
    obtain ds r' where w: "waitForWheel ?s1 True ps = (ds, r')"
      by (cases "waitForWheel ?s1 True ps") auto
    from Cons.IH[OF w] have ds: "ds = []"
      and r': "\<forall>s2 ps2. r' = Some (s2, ps2) \<longrightarrow>
          plugged (currBytes s2) \<and> sameButCurr s2 ?s1 \<and> (wheelIdentified s2 \<longrightarrow> s2 = ?s1)"
      by auto
    from Cons.prems False w have rs: "rs = (if br then [] else resetButtons) @ ds" and r: "r = r'"
      by (auto simp: waitForWheel_Cons)
    from rs ds have "rs = [] \<or> (\<not> br \<and> rs = resetButtons)" by auto
    moreover have "\<forall>s2 ps2. r = Some (s2, ps2) \<longrightarrow>
      plugged (currBytes s2) \<and> sameButCurr s2 s0 \<and> (wheelIdentified s2 \<longrightarrow> s2 = s0)"
      using r' unfolding r by (fastforce simp: sameButCurr_def)
    ultimately show ?thesis by simp
  qed
qed

lemma identify_fields [simp]:
  "currBytes (identify s) = currBytes s" "prevBytes (identify s) = prevBytes s"
  "joyBtnState (identify s) = joyBtnState s" "prevJoyBtnState (identify s) = prevJoyBtnState s"
  by (simp_all add: identify_def)

lemma identify_seeking:
  "\<not> wheelIdentified s \<Longrightarrow>
   identify s = (if wheelbyte (currBytes s) = 160 \<and> fifthbyte (currBytes s) = 0
                 then s\<lparr>wheelID := 2, bit2btn := F599Btn, wheelIdentified := True\<rparr> else s)"
  by (simp add: identify_def)

lemma identify_identified:
  "wheelIdentified s \<Longrightarrow>
   identify s = (if sparcoPattern (currBytes s)
                 then s\<lparr>wheelID := 3, bit2btn := R383Btn, wheelIdentified := True\<rparr> else s)"
  by (auto simp: identify_def sparcoPattern_def)

lemma joyButton_fields [simp]:
  "currBytes (fst (joyButton s)) = currBytes s" "prevBytes (fst (joyButton s)) = prevBytes s"
  "wheelID (fst (joyButton s)) = wheelID s" "wheelIdentified (fst (joyButton s)) = wheelIdentified s"
  "bit2btn (fst (joyButton s)) = bit2btn s" "prevJoyBtnState (fst (joyButton s)) = prevJoyBtnState s"
  by (simp_all add: joyButton_def Let_def)

lemma loop_Inr_connected:
  "waitForWheel (s\<lparr>currBytes := readWheel p\<rparr>) False ps = (rs, Some (s2, ps2)) \<Longrightarrow>
   loop True s (p # ps) =
     Inr (rs @ (if wheelIdentified (identify s2)
                then projr (diffBytes (bit2btn (identify s2)) (currBytes s2) (prevBytes s2)) else [])
             @ snd (joyButton (identify s2)) @ [SendReport],
          Some ((fst (joyButton (identify s2)))
                  \<lparr>prevBytes := currBytes s2,
                    prevJoyBtnState := joyBtnState (fst (joyButton (identify s2)))\<rparr>, ps2))"
proof -
  assume w: "waitForWheel (s\<lparr>currBytes := readWheel p\<rparr>) False ps = (rs, Some (s2, ps2))"
  obtain s4 js where j: "joyButton (identify s2) = (s4, js)"
    by (cases "joyButton (identify s2)") auto
  have "currBytes s4 = currBytes s2"
    using joyButton_fields(1)[of "identify s2"] j by simp
  then show ?thesis
    by (simp add: loop_def Let_def diffBytes_Inr w j)
qed

lemma cycleInv_step:
  assumes inv: "cycleInv s" and l: "loop connected s ps = Inr (cs, Some (s', ps'))"
  shows "cycleInv s'"
proof (cases connected)
  case False
  with l inv show ?thesis by (simp add: loop_def)
next
  case True
  with l obtain p ps1 where ps: "ps = p # ps1" by (cases ps) (auto simp: loop_def)
  obtain rs r where w: "waitForWheel (s\<lparr>currBytes := readWheel p\<rparr>) False ps1 = (rs, r)"
    by (cases "waitForWheel (s\<lparr>currBytes := readWheel p\<rparr>) False ps1") auto
  with l True ps obtain s2 ps2 where r: "r = Some (s2, ps2)"
    by (cases r) (auto simp: loop_def)
  let ?s3 = "identify s2"
  let ?s4 = "fst (joyButton ?s3)"
  from loop_Inr_connected[OF w[unfolded r]] l True ps
  have s': "s' = ?s4\<lparr>prevBytes := currBytes s2, prevJoyBtnState := joyBtnState ?s4\<rparr>"
    by simp
  from waitForWheel_result[OF w] r
  have pl: "plugged (currBytes s2)" and same: "sameButCurr s2 (s\<lparr>currBytes := readWheel p\<rparr>)"
    and kept: "wheelIdentified s2 \<longrightarrow> s2 = s\<lparr>currBytes := readWheel p\<rparr>"
    by auto
  show ?thesis
  proof (cases "wheelIdentified s2")
    case False
    then show ?thesis using inv same pl unfolding s'
      by (auto simp: cycleInv_def identify_seeking sameButCurr_def joyButton_def Let_def sparcoPattern_def)
  next
    case True
    with kept have "wheelIdentified s" by (cases s) auto
    with True show ?thesis using inv same pl unfolding s'
      by (auto simp: cycleInv_def identify_identified sameButCurr_def joyButton_def Let_def)
  qed
qed

lemma cycleInv_initial: "cycleInv initial"
  by (simp add: cycleInv_def initial_def)

lemma reachable_cycleInv: "reachable s \<Longrightarrow> cycleInv s"
  by (induction rule: reachable.induct) (auto intro: cycleInv_initial cycleInv_step)

lemma resetButtons_calls: "resetButtons = SetHat1 HAT_CENTERED # map Release [0..20]"
proof -
  have "concat (map (\<lambda>b. setButton (int b) False) [0..<21]) = map Release [0..20]"
    by code_simp
  then show ?thesis by (simp add: resetButtons_def)
qed

lemma plugged_iff: "plugged cb \<longleftrightarrow> wheelbyte cb \<in> {192, 160, 32}"
  by (auto simp: plugged_def)

lemma joyButton_not_sparco:
  "\<not> (wheelIdentified s \<and> wheelID s = 3) \<Longrightarrow> joyButton s = (s, [])"
  by (auto simp: joyButton_def)

lemma loop_after_absence:
  assumes u: "\<not> plugged (readWheel u)" and us: "\<forall>v\<in>set us. \<not> plugged (readWheel v)"
    and p: "plugged (readWheel p)"
  shows "loop True s (u # us @ p # ps) =
     Inr (resetButtons
            @ (if wheelbyte (readWheel p) = 160 \<and> fifthbyte (readWheel p) = 0
               then projr (diffBytes F599Btn (readWheel p) (prevBytes s)) else [])
            @ [SendReport],
          Some (if wheelbyte (readWheel p) = 160 \<and> fifthbyte (readWheel p) = 0
                then s\<lparr>currBytes := readWheel p, prevBytes := readWheel p, wheelID := 2,
                       prevJoyBtnState := joyBtnState s, wheelIdentified := True,
                       bit2btn := F599Btn\<rparr>
                else s\<lparr>currBytes := readWheel p, prevBytes := readWheel p,
                       prevJoyBtnState := joyBtnState s, wheelIdentified := False\<rparr>, ps))"
proof -
  have w: "waitForWheel (s\<lparr>currBytes := readWheel u\<rparr>) False (us @ p # ps)
      = (resetButtons, Some (s\<lparr>currBytes := readWheel p, wheelIdentified := False\<rparr>, ps))"
    using waitForWheel_replugged[of "s\<lparr>currBytes := readWheel u\<rparr>" us p False ps] u us p
    by simp
  show ?thesis
    by (simp add: loop_Inr_connected[OF w] identify_seeking joyButton_not_sparco)
qed

subsection \<open>The calls a cycle can make\<close>

lemma table_entries:
  assumes "tbl \<in> {unmappedBtn, F599Btn, R383Btn, F1Btn}" and "k < 32"
  shows "tbl ! k = - 1 \<or> (0 \<le> tbl ! k \<and> tbl ! k \<le> 20) \<or> (31 \<le> tbl ! k \<and> tbl ! k \<le> 34)"
proof -
  have "\<forall>e\<in>set tbl. e = - 1 \<or> (0 \<le> e \<and> e \<le> 20) \<or> (31 \<le> e \<and> e \<le> 34)"
    using assms(1) by (auto simp: unmappedBtn_def F599Btn_def R383Btn_def F1Btn_def)
  moreover have "length tbl = 32"
    using assms(1) by (auto simp: unmappedBtn_def F599Btn_def R383Btn_def F1Btn_def)
  ultimately show ?thesis using assms(2) nth_mem[of k tbl] by auto
qed

lemma processBit_calls:
  assumes "c \<in> set (projr (processBit tbl cb pb i b))"
  shows "(31 \<le> tbl ! (i * 8 + b) \<and> tbl ! (i * 8 + b) \<le> 34 \<and>
            c \<in> SetHat1 ` {HAT_CENTERED, 1, 3, 5, 7}) \<or>
         (\<not> (31 \<le> tbl ! (i * 8 + b) \<and> tbl ! (i * 8 + b) \<le> 34) \<and>
            c \<in> {Press (tbl ! (i * 8 + b)), Release (tbl ! (i * 8 + b))})"
proof (cases "31 \<le> tbl ! (i * 8 + b) \<and> tbl ! (i * 8 + b) \<le> 34")
  case True
  then have "tbl ! (i * 8 + b) = 31 \<or> tbl ! (i * 8 + b) = 32 \<or>
      tbl ! (i * 8 + b) = 33 \<or> tbl ! (i * 8 + b) = 34" by arith
  then show ?thesis using assms
    by (auto simp: processBit_def convertHat_cases split: if_splits)
next
  case False
  then show ?thesis using assms
    by (auto simp: processBit_def setButton_def split: if_splits)
qed

lemma diffBytes_calls:
  assumes "c \<in> set (projr (diffBytes tbl cb pb))"
  shows "\<exists>i<4. \<exists>b<8. c \<in> set (projr (processBit tbl cb pb i b))"
  using assms by (fastforce simp: diffBytes_Inr)

lemma diffBytes_calls_allowed:
  assumes "tbl \<in> {unmappedBtn, F599Btn, R383Btn, F1Btn}"
    and "c \<in> set (projr (diffBytes tbl cb pb))"
  shows "c \<in> SetHat1 ` {HAT_CENTERED, 1, 3, 5, 7} \<or>
         (\<exists>n. c \<in> {Press n, Release n} \<and> (n = - 1 \<or> (0 \<le> n \<and> n \<le> 20)))"
proof -
  from diffBytes_calls[OF assms(2)] obtain i b where
    i: "i < 4" and b: "b < 8" and c: "c \<in> set (projr (processBit tbl cb pb i b))" by auto
  from i b have "i * 8 + b < 32" by arith
  from table_entries[OF assms(1) this] processBit_calls[OF c] show ?thesis by auto
qed

lemma resetButtons_allowed:
  assumes "c \<in> set resetButtons"
  shows "c = SetHat1 HAT_CENTERED \<or> (\<exists>n. c = Release n \<and> 0 \<le> n \<and> n \<le> 20)"
  using assms by (auto simp: resetButtons_calls)

lemma joyButton_calls: "set (snd (joyButton s)) \<subseteq> {Press 13, Release 13}"
  by (auto simp: joyButton_def setButton_def Let_def)

lemma identify_table:
  "bit2btn (identify s) \<in> {bit2btn s, F599Btn, R383Btn, F1Btn}"
  by (simp add: identify_def)

lemma loop_calls_allowed:
  assumes inv: "cycleInv s" and l: "loop connected s ps = Inr (cs, r)" and c: "c \<in> set cs"
  shows "c = SendReport \<or> c \<in> SetHat1 ` {HAT_CENTERED, 1, 3, 5, 7} \<or>
         (\<exists>n. c \<in> {Press n, Release n} \<and> (n = - 1 \<or> (0 \<le> n \<and> n \<le> 20)))"
proof (cases connected)
  case False
  with l c show ?thesis by (simp add: loop_def)
next
  case True
  show ?thesis
  proof (cases ps)
    case Nil
    with l c True show ?thesis by (simp add: loop_def)
  next
    case (Cons p ps1)
    obtain rs r0 where w: "waitForWheel (s\<lparr>currBytes := readWheel p\<rparr>) False ps1 = (rs, r0)"
      by (cases "waitForWheel (s\<lparr>currBytes := readWheel p\<rparr>) False ps1") auto
    from waitForWheel_result[OF w] have rs: "rs = [] \<or> rs = resetButtons" by auto
    show ?thesis
    proof (cases r0)
      case None
      with l True Cons w have "cs = rs" by (simp add: loop_def)
      with rs c resetButtons_allowed[of c] show ?thesis by auto
    next
      case (Some a)
      obtain s2 ps2 where a: "a = (s2, ps2)" by (cases a) auto
      from waitForWheel_result[OF w] Some a
      have same: "sameButCurr s2 (s\<lparr>currBytes := readWheel p\<rparr>)" by auto
      have tbl: "bit2btn (identify s2) \<in> {unmappedBtn, F599Btn, R383Btn, F1Btn}"
        using identify_table[of s2] same inv by (auto simp: sameButCurr_def cycleInv_def)
      from loop_Inr_connected[OF w[unfolded Some a]] l True Cons
      have "cs = rs @ (if wheelIdentified (identify s2)
                then projr (diffBytes (bit2btn (identify s2)) (currBytes s2) (prevBytes s2)) else [])
             @ snd (joyButton (identify s2)) @ [SendReport]" by simp
      with c have "c \<in> set rs \<or>
          c \<in> set (projr (diffBytes (bit2btn (identify s2)) (currBytes s2) (prevBytes s2))) \<or>
          c \<in> set (snd (joyButton (identify s2))) \<or> c = SendReport"
        by (auto split: if_splits)
      then show ?thesis
        using rs resetButtons_allowed[of c] diffBytes_calls_allowed[OF tbl, of c]
          joyButton_calls[of "identify s2"]
        by auto
    qed
  qed
qed

lemma reachable_idle599: "reachable idle599"
proof -
  have "loop True initial [(0x5F, 0xFF, 0xFF, 0xFF, 0xFF)] =
      Inr ([Press (- 1), Press (- 1), SendReport], Some (idle599, []))"
    by code_simp
  from reachable.step[OF reachable.start this] show ?thesis .
qed

lemma reachable_pushed383: "reachable pushed383"
proof -
  have "loop True idle599 [(0xDF, 0xFF, 0xFF, 0x7F, 0xFF)] =
      Inr ([Release (- 1), Press (- 1), Press 13, SendReport], Some (pushed383, []))"
    by code_simp
  from reachable.step[OF reachable_idle599 this] show ?thesis .
qed

subsection \<open>Counting the calls of the differencing loops\<close>

lemma count_list_concat:
  "count_list (concat xss) c = sum_list (map (\<lambda>xs. count_list xs c) xss)"
  by (induction xss) simp_all

lemma processBit_count_Press:
  "count_list (projr (processBit tbl cb pb i b)) (Press n) =
     (if (cb ! i AND pos ! b) \<noteq> (pb ! i AND pos ! b) \<and> (cb ! i AND pos ! b) \<noteq> 0 \<and>
         tbl ! (i * 8 + b) = n \<and> \<not> (31 \<le> n \<and> n \<le> 34) then 1 else 0)"
proof (cases "31 \<le> tbl ! (i * 8 + b) \<and> tbl ! (i * 8 + b) \<le> 34")
  case True
  then have "tbl ! (i * 8 + b) = 31 \<or> tbl ! (i * 8 + b) = 32 \<or>
      tbl ! (i * 8 + b) = 33 \<or> tbl ! (i * 8 + b) = 34" by arith
  then show ?thesis by (auto simp: processBit_def convertHat_cases)
next
  case False
  then show ?thesis by (auto simp: processBit_def setButton_def)
qed

lemma processBit_count_Release:
  "count_list (projr (processBit tbl cb pb i b)) (Release n) =
     (if (cb ! i AND pos ! b) \<noteq> (pb ! i AND pos ! b) \<and> (cb ! i AND pos ! b) = 0 \<and>
         tbl ! (i * 8 + b) = n \<and> \<not> (31 \<le> n \<and> n \<le> 34) then 1 else 0)"
proof (cases "31 \<le> tbl ! (i * 8 + b) \<and> tbl ! (i * 8 + b) \<le> 34")
  case True
  then have "tbl ! (i * 8 + b) = 31 \<or> tbl ! (i * 8 + b) = 32 \<or>
      tbl ! (i * 8 + b) = 33 \<or> tbl ! (i * 8 + b) = 34" by arith
  then show ?thesis by (auto simp: processBit_def convertHat_cases)
next
  case False
  then show ?thesis by (auto simp: processBit_def setButton_def)
qed

lemma distinct_filter_nth:
  "distinct (filter P xs) \<Longrightarrow> k < length xs \<Longrightarrow> k' < length xs \<Longrightarrow>
   xs ! k = xs ! k' \<Longrightarrow> P (xs ! k) \<Longrightarrow> k = k'"
proof (induction xs arbitrary: k k')
  case Nil
  then show ?case by simp
next
  case (Cons x xs)
  show ?case
  proof (cases k)
    case 0
    show ?thesis
    proof (cases k')
      case 0
      with \<open>k = 0\<close> show ?thesis by simp
    next
      case (Suc j')
      with \<open>k = 0\<close> Cons.prems have "x = xs ! j'" "j' < length xs" "P x" by auto
      then have "x \<in> set (filter P xs)" by auto
      with Cons.prems(1) \<open>P x\<close> show ?thesis by simp
    qed
  next
    case (Suc j)
    show ?thesis
    proof (cases k')
      case 0
      with Suc Cons.prems have "x = xs ! j" "j < length xs" "P x" by auto
      then have "x \<in> set (filter P xs)" by auto
      with Cons.prems(1) \<open>P x\<close> show ?thesis by simp
    next
      case (Suc j')
      with \<open>k = Suc j\<close> Cons.prems have "distinct (filter P xs)" "j < length xs" "j' < length xs"
        "xs ! j = xs ! j'" "P (xs ! j)" by (auto split: if_splits)
      from Cons.IH[OF this] Suc \<open>k = Suc j\<close> show ?thesis by simp
    qed
  qed
qed

text \<open>No button number between 0 and 20 stands twice in a table.\<close>

lemma distinct_buttons:
  assumes "tbl \<in> {F599Btn, R383Btn, F1Btn}" and "k < 32" and "k' < 32"
    and "tbl ! k = tbl ! k'" and "0 \<le> tbl ! k" and "tbl ! k \<le> 20"
  shows "k = k'"
proof -
  have d: "distinct (filter (\<lambda>e. 0 \<le> e \<and> e \<le> 20) tbl)"
    using assms(1) by (auto simp: F599Btn_def R383Btn_def F1Btn_def)
  have l: "length tbl = 32"
    using assms(1) by (auto simp: F599Btn_def R383Btn_def F1Btn_def)
  show ?thesis
    by (rule distinct_filter_nth[OF d]) (use assms l in auto)
qed

lemma sum_list_single:
  "distinct xs \<Longrightarrow> sum_list (map (\<lambda>y. if y = a then (x::nat) else 0) xs) = (if a \<in> set xs then x else 0)"
  by (induction xs) auto

lemma sum_list_single2:
  assumes "i < 4" and "b < 8"
  shows "sum_list (map (\<lambda>i'. sum_list (map (\<lambda>b'. if i' = i \<and> b' = b then (x::nat) else 0) [0..<8])) [0..<4]) = x"
proof -
  have inner: "sum_list (map (\<lambda>b'. if i' = i \<and> b' = b then x else 0) [0..<8]) = (if i' = i then x else 0)" for i'
  proof (cases "i' = i")
    case True
    then show ?thesis using sum_list_single[of "[0..<8]" b x] assms(2) by simp
  next
    case False
    then show ?thesis by simp
  qed
  show ?thesis unfolding inner using sum_list_single[of "[0..<4]" i x] assms(1) by simp
qed

lemma diffBytes_count:
  assumes "\<And>i' b'. i' < 4 \<Longrightarrow> b' < 8 \<Longrightarrow>
      count_list (projr (processBit tbl cb pb i' b')) c = (if i' = i \<and> b' = b then x else 0)"
    and "i < 4" and "b < 8"
  shows "count_list (projr (diffBytes tbl cb pb)) c = x"
proof -
  have inner: "sum_list (map (\<lambda>b'. count_list (projr (processBit tbl cb pb i' b')) c) [0..<8])
      = sum_list (map (\<lambda>b'. if i' = i \<and> b' = b then x else 0) [0..<8])" if "i' < 4" for i'
    by (rule arg_cong[where f = sum_list], rule map_cong[OF refl]) (use that assms(1) in auto)
  have outer: "sum_list (map (\<lambda>i'. sum_list (map (\<lambda>b'. count_list (projr (processBit tbl cb pb i' b')) c) [0..<8])) [0..<4])
      = sum_list (map (\<lambda>i'. sum_list (map (\<lambda>b'. if i' = i \<and> b' = b then x else 0) [0..<8])) [0..<4])"
    by (rule arg_cong[where f = sum_list], rule map_cong[OF refl]) (use inner in auto)
  have "count_list (projr (diffBytes tbl cb pb)) c
      = sum_list (map (\<lambda>i'. sum_list (map (\<lambda>b'. count_list (projr (processBit tbl cb pb i' b')) c) [0..<8])) [0..<4])"
    unfolding diffBytes_Inr sum.sel count_list_concat map_map comp_def ..
  then show ?thesis unfolding outer sum_list_single2[OF assms(2,3)] .
qed

lemma same_entry:
  assumes "tbl \<in> {F599Btn, R383Btn, F1Btn}" and "i < 4" and "b < 8"
    and "0 \<le> tbl ! (i * 8 + b)" and "tbl ! (i * 8 + b) \<le> 20" and "i' < 4" and "b' < 8"
  shows "tbl ! (i' * 8 + b') = tbl ! (i * 8 + b) \<longleftrightarrow> i' = i \<and> b' = b"
proof
  assume e: "tbl ! (i' * 8 + b') = tbl ! (i * 8 + b)"
  have "i * 8 + b = i' * 8 + b'"
    by (rule distinct_buttons[OF assms(1)]) (use assms e in auto)
  with assms(3,7) show "i' = i \<and> b' = b" by arith
qed simp

lemma diffBytes_count_Press:
  assumes "tbl \<in> {F599Btn, R383Btn, F1Btn}" and "i < 4" and "b < 8"
    and "0 \<le> tbl ! (i * 8 + b)" and "tbl ! (i * 8 + b) \<le> 20"
  shows "count_list (projr (diffBytes tbl cb pb)) (Press (tbl ! (i * 8 + b))) =
           (if (cb ! i AND pos ! b) \<noteq> (pb ! i AND pos ! b) \<and> (cb ! i AND pos ! b) \<noteq> 0 then 1 else 0)"
proof (rule diffBytes_count[OF _ assms(2,3)])
  fix i' b' :: nat
  assume "i' < 4" "b' < 8"
  from same_entry[OF assms this] assms(4,5)
  show "count_list (projr (processBit tbl cb pb i' b')) (Press (tbl ! (i * 8 + b))) =
       (if i' = i \<and> b' = b
        then if (cb ! i AND pos ! b) \<noteq> (pb ! i AND pos ! b) \<and> (cb ! i AND pos ! b) \<noteq> 0 then 1 else 0
        else 0)"
    unfolding processBit_count_Press by auto
qed

lemma diffBytes_count_Release:
  assumes "tbl \<in> {F599Btn, R383Btn, F1Btn}" and "i < 4" and "b < 8"
    and "0 \<le> tbl ! (i * 8 + b)" and "tbl ! (i * 8 + b) \<le> 20"
  shows "count_list (projr (diffBytes tbl cb pb)) (Release (tbl ! (i * 8 + b))) =
           (if (cb ! i AND pos ! b) \<noteq> (pb ! i AND pos ! b) \<and> (cb ! i AND pos ! b) = 0 then 1 else 0)"
proof (rule diffBytes_count[OF _ assms(2,3)])
  fix i' b' :: nat
  assume "i' < 4" "b' < 8"
  from same_entry[OF assms this] assms(4,5)
  show "count_list (projr (processBit tbl cb pb i' b')) (Release (tbl ! (i * 8 + b))) =
       (if i' = i \<and> b' = b
        then if (cb ! i AND pos ! b) \<noteq> (pb ! i AND pos ! b) \<and> (cb ! i AND pos ! b) = 0 then 1 else 0
        else 0)"
    unfolding processBit_count_Release by auto
qed

lemma length_filter_sum:
  "length (filter Q ys) = sum_list (map (\<lambda>y. if Q y then 1 else 0) ys)"
  by (induction ys) simp_all

lemma length_filter_product:
  "length (filter P (List.product xs ys)) =
     sum_list (map (\<lambda>x. sum_list (map (\<lambda>y. if P (x, y) then 1 else 0) ys)) xs)"
  by (induction xs) (simp_all add: filter_map comp_def length_filter_sum)

lemma processBit_length:
  "length (projr (processBit tbl cb pb i b)) = (if changed cb pb (i, b) then 1 else 0)"
proof (cases "31 \<le> tbl ! (i * 8 + b) \<and> tbl ! (i * 8 + b) \<le> 34")
  case True
  then show ?thesis by (simp add: processBit_def changed_def convertHat_tag)
next
  case False
  then show ?thesis by (auto simp: processBit_def changed_def setButton_def)
qed

text \<open>Every changed bit gives one call, an unchanged bit none.\<close>

lemma diffBytes_length:
  "length (projr (diffBytes tbl cb pb)) =
     length (filter (changed cb pb) (List.product [0..<4] [0..<8]))"
  unfolding diffBytes_Inr sum.sel length_concat map_map comp_def processBit_length
    length_filter_product ..

lemma loop_same_frame:
  assumes r: "reachable s" and i: "wheelIdentified s" and p: "readWheel p = prevBytes s"
  shows "loop True s (p # ps) = Inr ([SendReport], Some (s, ps))"
proof -
  from reachable_cycleInv[OF r] have inv: "cycleInv s" .
  from inv p have s1: "s\<lparr>currBytes := readWheel p\<rparr> = s" by (simp add: cycleInv_def)
  from inv i have "plugged (currBytes s)" by (simp add: cycleInv_def)
  then have w: "waitForWheel (s\<lparr>currBytes := readWheel p\<rparr>) False ps = ([], Some (s, ps))"
    unfolding s1 by (rule waitForWheel_plugged)
  have id: "identify s = s"
    using inv i by (cases "wheelID s = 3") (auto simp: identify_identified cycleInv_def)
  have j: "joyButton s = (s, [])"
    using inv i by (cases "wheelID s = 3") (auto simp: joyButton_def cycleInv_def Let_def)
  have d: "diffBytes (bit2btn s) (currBytes s) (prevBytes s) = Inr []"
    using inv by (simp add: cycleInv_def diffBytes_same)
  have e: "s\<lparr>prevBytes := currBytes s, prevJoyBtnState := joyBtnState s\<rparr> = s"
    using inv by (simp add: cycleInv_def)
  show ?thesis
    by (simp add: loop_Inr_connected[OF w] id j d i e)
qed

subsection \<open>The calls of a whole cycle\<close>

lemma waitForWheel_reset:
  assumes "\<not> plugged (currBytes s0)" and "waitForWheel s0 False ps = (rs, Some x)"
  shows "rs = resetButtons"
proof (cases ps)
  case Nil
  with assms show ?thesis by (simp add: waitForWheel_Nil)
next
  case (Cons q qs)
  let ?s1 = "s0\<lparr>wheelIdentified := False, currBytes := readWheel q\<rparr>"
  obtain ds r' where w: "waitForWheel ?s1 True qs = (ds, r')"
    by (cases "waitForWheel ?s1 True qs") auto
  from waitForWheel_result[OF w] have "ds = []" by simp
  with assms Cons w show ?thesis by (simp add: waitForWheel_Cons)
qed

text \<open>
  A call of \<^verbatim>\<open>loop()\<close> that returns makes, in this order: the reset calls if its first
  poll was unrecognised; if a wheel is identified, the calls of the differencing of the
  last frame read against the stored frame, with the table then loaded; the call for
  button 13 of the R383, if any; and \<^verbatim>\<open>sendReport\<close>.
\<close>

lemma loop_cycle:
  assumes l: "loop True s (p # ps) = Inr (cs, Some (s', ps'))"
  shows "\<exists>js. cs = (if plugged (readWheel p) then [] else resetButtons)
                  @ (if wheelIdentified s'
                     then projr (diffBytes (bit2btn s') (currBytes s') (prevBytes s)) else [])
                  @ js @ [SendReport] \<and>
              set js \<subseteq> {Press 13, Release 13}"
proof -
  let ?s0 = "s\<lparr>currBytes := readWheel p\<rparr>"
  obtain rs r where w: "waitForWheel ?s0 False ps = (rs, r)"
    by (cases "waitForWheel ?s0 False ps") auto
  with l obtain s2 ps2 where r: "r = Some (s2, ps2)"
    by (cases r) (auto simp: loop_def)
  note w' = w[unfolded r]
  have rs: "rs = (if plugged (readWheel p) then [] else resetButtons)"
  proof (cases "plugged (readWheel p)")
    case True
    then have "plugged (currBytes ?s0)" by simp
    from waitForWheel_plugged[OF this, of False ps] w' True show ?thesis by simp
  next
    case False
    then have "\<not> plugged (currBytes ?s0)" by simp
    from waitForWheel_reset[OF this w'] False show ?thesis by simp
  qed
  from waitForWheel_result[OF w'] have same: "sameButCurr s2 ?s0" by simp
  let ?s4 = "fst (joyButton (identify s2))"
  from loop_Inr_connected[OF w'] l
  have cs: "cs = rs @ (if wheelIdentified (identify s2)
                then projr (diffBytes (bit2btn (identify s2)) (currBytes s2) (prevBytes s2)) else [])
             @ snd (joyButton (identify s2)) @ [SendReport]"
    and s': "s' = ?s4\<lparr>prevBytes := currBytes s2, prevJoyBtnState := joyBtnState ?s4\<rparr>"
    by simp_all
  have f: "wheelIdentified s' = wheelIdentified (identify s2)" "bit2btn s' = bit2btn (identify s2)"
    "currBytes s' = currBytes s2" "prevBytes s2 = prevBytes s"
    using same by (simp_all add: s' sameButCurr_def)
  show ?thesis
    using joyButton_calls[of "identify s2"] by (intro exI[of _ "snd (joyButton (identify s2))"]) (simp add: cs rs f)
qed

subsection \<open>The differencing loops, bit by bit\<close>

lemma concat_map_product:
  "concat (map (\<lambda>x. concat (map (f x) ys)) xs) = concat (map (\<lambda>(x, y). f x y) (List.product xs ys))"
  by (induction xs) (simp_all add: comp_def)

lemma diffBytes_positions:
  "projr (diffBytes tbl cb pb) =
     concat (map (\<lambda>(i, b). projr (processBit tbl cb pb i b)) (List.product [0..<4] [0..<8]))"
  unfolding diffBytes_Inr sum.sel
  by (rule concat_map_product[where f = "\<lambda>i b. projr (processBit tbl cb pb i b)"])

lemma filter_concat_single:
  assumes "\<And>x. x \<in> set xs \<Longrightarrow> filter Q (f x) = (if P x then [g x] else [])"
  shows "filter Q (concat (map f xs)) = map g (filter P xs)"
  using assms by (induction xs) simp_all

lemma diffBytes_filter:
  assumes "\<And>i b. i < 4 \<Longrightarrow> b < 8 \<Longrightarrow>
     filter Q (projr (processBit tbl cb pb i b)) = (if P (i, b) then [g (i, b)] else [])"
  shows "filter Q (projr (diffBytes tbl cb pb)) = map g (filter P (List.product [0..<4] [0..<8]))"
  unfolding diffBytes_positions
  by (rule filter_concat_single) (use assms in auto)

lemma diffBytes_member:
  assumes "i < 4" and "b < 8" and "c \<in> set (projr (processBit tbl cb pb i b))"
  shows "c \<in> set (projr (diffBytes tbl cb pb))"
proof -
  from assms(1,2) have "i \<in> {0..<4}" "b \<in> {0..<8}" by simp_all
  with assms(3) show ?thesis unfolding diffBytes_Inr by (simp, blast)
qed

lemma processBit_filter_unmapped:
  "filter (\<lambda>c. c = Press (- 1) \<or> c = Release (- 1)) (projr (processBit tbl cb pb i b)) =
     (if changed cb pb (i, b) \<and> tbl ! (i * 8 + b) = - 1
      then [if cb ! i AND pos ! b = 0 then Release (- 1) else Press (- 1)] else [])"
proof (cases "31 \<le> tbl ! (i * 8 + b) \<and> tbl ! (i * 8 + b) \<le> 34")
  case True
  then show ?thesis by (auto simp: processBit_def changed_def convertHat_tag)
next
  case False
  then show ?thesis by (auto simp: processBit_def changed_def setButton_def)
qed

lemma processBit_filter_hat:
  "filter isSetHat1 (projr (processBit tbl cb pb i b)) =
     (if changed cb pb (i, b) \<and> 31 \<le> tbl ! (i * 8 + b) \<and> tbl ! (i * 8 + b) \<le> 34
      then [SetHat1 (if cb ! i AND pos ! b = 0 then HAT_CENTERED
                     else [1, 3, 5, 7] ! nat (tbl ! (i * 8 + b) - 31))] else [])"
proof (cases "31 \<le> tbl ! (i * 8 + b) \<and> tbl ! (i * 8 + b) \<le> 34")
  case True
  then have "tbl ! (i * 8 + b) = 31 \<or> tbl ! (i * 8 + b) = 32 \<or>
      tbl ! (i * 8 + b) = 33 \<or> tbl ! (i * 8 + b) = 34" by arith
  then show ?thesis by (auto simp: processBit_def changed_def convertHat_cases)
next
  case False
  then show ?thesis by (auto simp: processBit_def changed_def setButton_def)
qed

lemma filter_resetButtons_unmapped:
  "filter (\<lambda>c. c = Press (- 1) \<or> c = Release (- 1)) resetButtons = []"
  by (auto simp: resetButtons_calls filter_empty_conv)

lemma filter_resetButtons_hat: "filter isSetHat1 resetButtons = [SetHat1 HAT_CENTERED]"
proof -
  have "filter isSetHat1 (map Release xs) = []" for xs
    by (induction xs) simp_all
  then show ?thesis by (simp add: resetButtons_calls)
qed

lemma filter_joy:
  assumes "set js \<subseteq> {Press 13, Release 13}"
  shows "filter (\<lambda>c. c = Press (- 1) \<or> c = Release (- 1)) js = []" "filter isSetHat1 js = []"
  using assms by (auto simp: filter_empty_conv)

lemma no_button_13:
  assumes "tbl \<in> {F599Btn, R383Btn}" and "k < 32"
  shows "tbl ! k \<noteq> 13"
proof -
  have "\<forall>e\<in>set tbl. e \<noteq> 13" "length tbl = 32"
    using assms(1) by (auto simp: F599Btn_def R383Btn_def)
  then show ?thesis using assms(2) nth_mem[of k tbl] by auto
qed

lemma loop_unmapped_calls:
  assumes l: "loop True s (p # ps) = Inr (cs, Some (s', ps'))" and i: "wheelIdentified s'"
  shows "filter (\<lambda>c. c = Press (- 1) \<or> c = Release (- 1)) cs =
     map (\<lambda>(i, b). if currBytes s' ! i AND pos ! b = 0 then Release (- 1) else Press (- 1))
       (filter (\<lambda>(i, b). changed (currBytes s') (prevBytes s) (i, b) \<and> bit2btn s' ! (i * 8 + b) = - 1)
          (List.product [0..<4] [0..<8]))"
proof -
  from loop_cycle[OF l] i obtain js where
    cs: "cs = (if plugged (readWheel p) then [] else resetButtons)
               @ projr (diffBytes (bit2btn s') (currBytes s') (prevBytes s)) @ js @ [SendReport]"
    and js: "set js \<subseteq> {Press 13, Release 13}" by auto
  have d: "filter (\<lambda>c. c = Press (- 1) \<or> c = Release (- 1))
             (projr (diffBytes (bit2btn s') (currBytes s') (prevBytes s))) =
     map (\<lambda>(i, b). if currBytes s' ! i AND pos ! b = 0 then Release (- 1) else Press (- 1))
       (filter (\<lambda>(i, b). changed (currBytes s') (prevBytes s) (i, b) \<and> bit2btn s' ! (i * 8 + b) = - 1)
          (List.product [0..<4] [0..<8]))"
    by (rule diffBytes_filter) (simp add: processBit_filter_unmapped)
  show ?thesis
    unfolding cs using d filter_joy(1)[OF js] by (simp add: filter_resetButtons_unmapped)
qed

lemma loop_unmapped_member:
  assumes l: "loop True s (p # ps) = Inr (cs, Some (s', ps'))" and w: "wheelIdentified s'"
    and "i < 4" and "b < 8" and e: "bit2btn s' ! (i * 8 + b) = - 1"
    and c: "(currBytes s' ! i AND pos ! b) \<noteq> (prevBytes s ! i AND pos ! b)"
  shows "(if currBytes s' ! i AND pos ! b = 0 then Release (- 1) else Press (- 1)) \<in> set cs"
proof -
  from loop_cycle[OF l] w obtain js where
    cs: "cs = (if plugged (readWheel p) then [] else resetButtons)
               @ projr (diffBytes (bit2btn s') (currBytes s') (prevBytes s)) @ js @ [SendReport]"
    by auto
  have "processBit (bit2btn s') (currBytes s') (prevBytes s) i b =
      Inr [if currBytes s' ! i AND pos ! b = 0 then Release (- 1) else Press (- 1)]"
    using e c by (simp add: processBit_def setButton_def)
  then have "(if currBytes s' ! i AND pos ! b = 0 then Release (- 1) else Press (- 1))
      \<in> set (projr (processBit (bit2btn s') (currBytes s') (prevBytes s) i b))" by simp
  from diffBytes_member[OF assms(3,4) this] show ?thesis unfolding cs by simp
qed

lemma loop_hat_calls:
  assumes l: "loop True s (p # ps) = Inr (cs, Some (s', ps'))" and w: "wheelIdentified s'"
  shows "filter isSetHat1 cs =
     (if plugged (readWheel p) then [] else [SetHat1 HAT_CENTERED]) @
     map (\<lambda>(i, b). SetHat1 (if currBytes s' ! i AND pos ! b = 0 then HAT_CENTERED
                              else [1, 3, 5, 7] ! nat (bit2btn s' ! (i * 8 + b) - 31)))
       (filter (\<lambda>(i, b). changed (currBytes s') (prevBytes s) (i, b) \<and>
                  31 \<le> bit2btn s' ! (i * 8 + b) \<and> bit2btn s' ! (i * 8 + b) \<le> 34)
          (List.product [0..<4] [0..<8]))"
proof -
  from loop_cycle[OF l] w obtain js where
    cs: "cs = (if plugged (readWheel p) then [] else resetButtons)
               @ projr (diffBytes (bit2btn s') (currBytes s') (prevBytes s)) @ js @ [SendReport]"
    and js: "set js \<subseteq> {Press 13, Release 13}" by auto
  have d: "filter isSetHat1 (projr (diffBytes (bit2btn s') (currBytes s') (prevBytes s))) =
     map (\<lambda>(i, b). SetHat1 (if currBytes s' ! i AND pos ! b = 0 then HAT_CENTERED
                              else [1, 3, 5, 7] ! nat (bit2btn s' ! (i * 8 + b) - 31)))
       (filter (\<lambda>(i, b). changed (currBytes s') (prevBytes s) (i, b) \<and>
                  31 \<le> bit2btn s' ! (i * 8 + b) \<and> bit2btn s' ! (i * 8 + b) \<le> 34)
          (List.product [0..<4] [0..<8]))"
    by (rule diffBytes_filter) (simp add: processBit_filter_hat)
  show ?thesis
    unfolding cs using d filter_joy(2)[OF js] by (simp add: filter_resetButtons_hat)
qed

lemma loop_hat_member:
  assumes l: "loop True s (p # ps) = Inr (cs, Some (s', ps'))" and w: "wheelIdentified s'"
    and "i < 4" and "b < 8"
    and e: "31 \<le> bit2btn s' ! (i * 8 + b)" "bit2btn s' ! (i * 8 + b) \<le> 34"
    and c: "(currBytes s' ! i AND pos ! b) \<noteq> (prevBytes s ! i AND pos ! b)"
  shows "SetHat1 (if currBytes s' ! i AND pos ! b = 0 then HAT_CENTERED
                  else [1, 3, 5, 7] ! nat (bit2btn s' ! (i * 8 + b) - 31))
           \<in> set (projr (diffBytes (bit2btn s') (currBytes s') (prevBytes s))) \<and>
         set (projr (diffBytes (bit2btn s') (currBytes s') (prevBytes s))) \<subseteq> set cs"
proof -
  from loop_cycle[OF l] w obtain js where
    cs: "cs = (if plugged (readWheel p) then [] else resetButtons)
               @ projr (diffBytes (bit2btn s') (currBytes s') (prevBytes s)) @ js @ [SendReport]"
    by auto
  have "filter isSetHat1 (projr (processBit (bit2btn s') (currBytes s') (prevBytes s) i b)) =
      [SetHat1 (if currBytes s' ! i AND pos ! b = 0 then HAT_CENTERED
                  else [1, 3, 5, 7] ! nat (bit2btn s' ! (i * 8 + b) - 31))]"
    using e c by (simp add: processBit_filter_hat changed_def)
  then have "SetHat1 (if currBytes s' ! i AND pos ! b = 0 then HAT_CENTERED
                  else [1, 3, 5, 7] ! nat (bit2btn s' ! (i * 8 + b) - 31))
      \<in> set (filter isSetHat1 (projr (processBit (bit2btn s') (currBytes s') (prevBytes s) i b)))"
    by simp
  then have "SetHat1 (if currBytes s' ! i AND pos ! b = 0 then HAT_CENTERED
                  else [1, 3, 5, 7] ! nat (bit2btn s' ! (i * 8 + b) - 31))
      \<in> set (projr (processBit (bit2btn s') (currBytes s') (prevBytes s) i b))"
    by simp
  from diffBytes_member[OF assms(3,4) this] show ?thesis unfolding cs by auto
qed

lemma count_list_joy:
  assumes "set js \<subseteq> {Press 13, Release 13}" and "e \<noteq> 13"
  shows "count_list js (Press e) = 0" "count_list js (Release e) = 0"
  using assms by (auto simp: count_list_0_iff)

text \<open>
  What a returning call of \<^verbatim>\<open>loop()\<close> with a wheel identified makes after the reset
  calls, seen from one bit of the first four bytes.
\<close>

lemma loop_change_calls:
  assumes r: "reachable s" and l: "loop True s (p # ps) = Inr (cs, Some (s', ps'))"
    and w: "wheelIdentified s'" and i: "i < 4" and b: "b < 8"
  shows "\<exists>rest. cs = (if plugged (readWheel p) then [] else resetButtons) @ rest \<and>
     length (filter isSetHat1 rest) =
       length (filter (\<lambda>(i, b). changed (currBytes s') (prevBytes s) (i, b) \<and>
                  31 \<le> bit2btn s' ! (i * 8 + b) \<and> bit2btn s' ! (i * 8 + b) \<le> 34)
          (List.product [0..<4] [0..<8])) \<and>
     (0 \<le> bit2btn s' ! (i * 8 + b) \<and> bit2btn s' ! (i * 8 + b) \<le> 20 \<longrightarrow>
        count_list rest (Press (bit2btn s' ! (i * 8 + b))) =
          (if (currBytes s' ! i AND pos ! b) \<noteq> (prevBytes s ! i AND pos ! b) \<and>
              currBytes s' ! i AND pos ! b \<noteq> 0 then 1 else 0) \<and>
        count_list rest (Release (bit2btn s' ! (i * 8 + b))) =
          (if (currBytes s' ! i AND pos ! b) \<noteq> (prevBytes s ! i AND pos ! b) \<and>
              currBytes s' ! i AND pos ! b = 0 then 1 else 0)) \<and>
     (31 \<le> bit2btn s' ! (i * 8 + b) \<and> bit2btn s' ! (i * 8 + b) \<le> 34 \<and>
      (currBytes s' ! i AND pos ! b) \<noteq> (prevBytes s ! i AND pos ! b) \<longrightarrow>
        SetHat1 (if currBytes s' ! i AND pos ! b = 0 then HAT_CENTERED
                 else 2 * (bit2btn s' ! (i * 8 + b) - 31) + 1) \<in> set rest)"
proof -
  let ?tbl = "bit2btn s'" and ?cb = "currBytes s'" and ?pb = "prevBytes s"
  let ?ds = "projr (diffBytes ?tbl ?cb ?pb)"
  from loop_cycle[OF l] w obtain js where
    cs: "cs = (if plugged (readWheel p) then [] else resetButtons) @ ?ds @ js @ [SendReport]"
    and js: "set js \<subseteq> {Press 13, Release 13}" by auto
  let ?rest = "?ds @ js @ [SendReport]"
  from reachable.step[OF r l] have "reachable s'" .
  from reachable_cycleInv[OF this] w have tbl: "?tbl \<in> {F599Btn, R383Btn}"
    by (simp add: cycleInv_def)
  then have tbl3: "?tbl \<in> {F599Btn, R383Btn, F1Btn}" by auto
  from i b have k: "i * 8 + b < 32" by arith
  from no_button_13[OF tbl k] have e13: "?tbl ! (i * 8 + b) \<noteq> 13" .
  have hats: "length (filter isSetHat1 ?rest) =
       length (filter (\<lambda>(i, b). changed ?cb ?pb (i, b) \<and>
                  31 \<le> ?tbl ! (i * 8 + b) \<and> ?tbl ! (i * 8 + b) \<le> 34)
          (List.product [0..<4] [0..<8]))"
  proof -
    have "filter isSetHat1 ?ds =
     map (\<lambda>(i, b). SetHat1 (if ?cb ! i AND pos ! b = 0 then HAT_CENTERED
                              else [1, 3, 5, 7] ! nat (?tbl ! (i * 8 + b) - 31)))
       (filter (\<lambda>(i, b). changed ?cb ?pb (i, b) \<and>
                  31 \<le> ?tbl ! (i * 8 + b) \<and> ?tbl ! (i * 8 + b) \<le> 34)
          (List.product [0..<4] [0..<8]))"
      by (rule diffBytes_filter) (simp add: processBit_filter_hat)
    then have "length (filter isSetHat1 ?ds) =
       length (filter (\<lambda>(i, b). changed ?cb ?pb (i, b) \<and>
                  31 \<le> ?tbl ! (i * 8 + b) \<and> ?tbl ! (i * 8 + b) \<le> 34)
          (List.product [0..<4] [0..<8]))"
      by simp
    then show ?thesis using filter_joy(2)[OF js] by simp
  qed
  have btn: "count_list ?rest (Press (?tbl ! (i * 8 + b))) =
          (if (?cb ! i AND pos ! b) \<noteq> (?pb ! i AND pos ! b) \<and> ?cb ! i AND pos ! b \<noteq> 0 then 1 else 0) \<and>
        count_list ?rest (Release (?tbl ! (i * 8 + b))) =
          (if (?cb ! i AND pos ! b) \<noteq> (?pb ! i AND pos ! b) \<and> ?cb ! i AND pos ! b = 0 then 1 else 0)"
    if e: "0 \<le> ?tbl ! (i * 8 + b) \<and> ?tbl ! (i * 8 + b) \<le> 20"
    using diffBytes_count_Press[OF tbl3 i b, of ?cb ?pb] diffBytes_count_Release[OF tbl3 i b, of ?cb ?pb]
      count_list_joy[OF js e13] e
    by simp
  have hat: "SetHat1 (if ?cb ! i AND pos ! b = 0 then HAT_CENTERED
                 else 2 * (?tbl ! (i * 8 + b) - 31) + 1) \<in> set ?rest"
    if e: "31 \<le> ?tbl ! (i * 8 + b) \<and> ?tbl ! (i * 8 + b) \<le> 34 \<and>
      (?cb ! i AND pos ! b) \<noteq> (?pb ! i AND pos ! b)"
  proof -
    from e have "?tbl ! (i * 8 + b) = 31 \<or> ?tbl ! (i * 8 + b) = 32 \<or>
      ?tbl ! (i * 8 + b) = 33 \<or> ?tbl ! (i * 8 + b) = 34" by arith
    then have "[1, 3, 5, 7] ! nat (?tbl ! (i * 8 + b) - 31) = 2 * (?tbl ! (i * 8 + b) - 31) + 1"
      by auto
    with loop_hat_member[OF l w i b] e show ?thesis by auto
  qed
  from cs hats btn hat show ?thesis by blast
qed

text \<open>A call of \<^verbatim>\<open>loop()\<close> returns as soon as a poll with a recognised header is read.\<close>

lemma loop_returns:
  assumes "\<forall>v\<in>set us. wheelbyte (readWheel v) \<notin> {192, 160, 32}"
    and "wheelbyte (readWheel q) \<in> {192, 160, 32}"
  shows "\<exists>cs s'. loop True s (us @ q # qs) = Inr (cs, Some (s', qs))"
proof (cases us)
  case Nil
  have "plugged (currBytes (s\<lparr>currBytes := readWheel q\<rparr>))"
    using assms(2) by (simp add: plugged_iff)
  from loop_Inr_connected[OF waitForWheel_plugged[OF this]] show ?thesis unfolding Nil by simp
next
  case (Cons u us')
  have "\<not> plugged (readWheel u)" "\<forall>v\<in>set us'. \<not> plugged (readWheel v)" "plugged (readWheel q)"
    using assms Cons by (simp_all add: plugged_iff)
  from loop_after_absence[OF this] show ?thesis unfolding Cons by simp
qed

section \<open>The claims\<close>

text \<open>
  C1. Claimed: when a bit of the first four bytes changes and its table entry is \<open>-1\<close>,
  nothing is forwarded. The sketch has no test for \<open>-1\<close>: the entry goes to
  \<^verbatim>\<open>setButton\<close> like any button number. The first frame of a 599xx wheel,
  \<open>(0xA0, 0, 0, 0, 0)\<close>, differs from the zeroed \<^verbatim>\<open>prevBytes\<close> in two header bits whose
  entries are \<open>-1\<close>, and \<^verbatim>\<open>press(-1)\<close> is called twice; with the wheel identified, a
  change of bit 2 of Byte 2 calls \<^verbatim>\<open>press(-1)\<close> as well, and so does bit 7 of Byte 4
  of an R383, which the wheel sets while its D-pad is pressed.
\<close>

theorem unmapped_bit_dropped_counterexample:
  "F599Btn ! (0 * 8 + 0) = - 1 \<and>
   (readWheel (0x5F, 0xFF, 0xFF, 0xFF, 0xFF) ! 0 AND pos ! 0) \<noteq> (prevBytes initial ! 0 AND pos ! 0) \<and>
   loop True initial [(0x5F, 0xFF, 0xFF, 0xFF, 0xFF)] =
     Inr ([Press (- 1), Press (- 1), SendReport], Some (idle599, [])) \<and>
   wheelIdentified idle599 \<and> bit2btn idle599 ! (1 * 8 + 5) = - 1 \<and>
   (readWheel (0x5F, 0xFB, 0xFF, 0xFF, 0xFF) ! 1 AND pos ! 5) \<noteq> (prevBytes idle599 ! 1 AND pos ! 5) \<and>
   loop True idle599 [(0x5F, 0xFB, 0xFF, 0xFF, 0xFF)] =
     Inr ([Press (- 1), SendReport],
          Some (idle599\<lparr>currBytes := [0xA0, 4, 0, 0, 0], prevBytes := [0xA0, 4, 0, 0, 0]\<rparr>, [])) \<and>
   R383Btn ! (3 * 8 + 0) = - 1 \<and>
   loop True idle599 [(0xDF, 0xFF, 0xFF, 0x7F, 0xFF)] =
     Inr ([Release (- 1), Press (- 1), Press 13, SendReport], Some (pushed383, []))"
  by code_simp

text \<open>
  C1, as amended. In every call of \<^verbatim>\<open>loop()\<close> that returns with a wheel identified
  (state \<open>s\<close> before, \<open>s'\<close> after, calls \<open>cs\<close>): when a bit of the first four bytes
  differs between the frame read and the stored frame and its entry in the table in
  force is \<open>-1\<close>, the change is not dropped: \<open>cs\<close> contains \<^verbatim>\<open>press(-1)\<close> if the bit is
  now set and \<^verbatim>\<open>release(-1)\<close> if it is now clear. The calls with button number \<open>-1\<close>
  in \<open>cs\<close> are exactly these, one for each such bit, in the order of the bits. The body
  of the loops makes this one call and no hat call for such a bit. In every call of
  \<^verbatim>\<open>loop()\<close> from a reachable state, every button number passed to \<^verbatim>\<open>press\<close> or
  \<^verbatim>\<open>release\<close> is \<open>-1\<close> or lies between 0 and 20. A call of \<^verbatim>\<open>loop()\<close> does return once
  a poll with a recognised header is read.
\<close>

theorem unmapped_bit_forwarded:
  assumes "reachable s" and "loop connected s ps = Inr (cs, r)"
  shows "(connected \<and> r = Some (s', ps') \<and> wheelIdentified s' \<and> i < 4 \<and> b < 8 \<and>
          bit2btn s' ! (i * 8 + b) = - 1 \<and>
          (currBytes s' ! i AND pos ! b) \<noteq> (prevBytes s ! i AND pos ! b) \<longrightarrow>
            (if currBytes s' ! i AND pos ! b = 0 then Release (- 1) else Press (- 1)) \<in> set cs) \<and>
         (connected \<and> r = Some (s', ps') \<and> wheelIdentified s' \<longrightarrow>
            filter (\<lambda>c. c = Press (- 1) \<or> c = Release (- 1)) cs =
              map (\<lambda>(i, b). if currBytes s' ! i AND pos ! b = 0 then Release (- 1) else Press (- 1))
                (filter (\<lambda>(i, b). changed (currBytes s') (prevBytes s) (i, b) \<and>
                                    bit2btn s' ! (i * 8 + b) = - 1)
                   (List.product [0..<4] [0..<8]))) \<and>
         (tbl ! (i * 8 + b) = - 1 \<and> (cb ! i AND pos ! b) \<noteq> (pb ! i AND pos ! b) \<longrightarrow>
            processBit tbl cb pb i b =
              Inr [if cb ! i AND pos ! b = 0 then Release (- 1) else Press (- 1)]) \<and>
         (Press n \<in> set cs \<or> Release n \<in> set cs \<longrightarrow> n = - 1 \<or> (0 \<le> n \<and> n \<le> 20)) \<and>
         ((\<forall>v\<in>set us. wheelbyte (readWheel v) \<notin> {192, 160, 32}) \<and>
          wheelbyte (readWheel q) \<in> {192, 160, 32} \<longrightarrow>
            (\<exists>cq sq. loop True s (us @ q # qs) = Inr (cq, Some (sq, qs))))"
proof -
  have cyc: "\<exists>p ps1. loop True s (p # ps1) = Inr (cs, Some (s', ps'))"
    if "connected" "r = Some (s', ps')"
  proof (cases ps)
    case Nil
    with assms(2) that show ?thesis by (simp add: loop_def)
  next
    case (Cons p ps1)
    with assms(2) that have "loop True s (p # ps1) = Inr (cs, Some (s', ps'))" by simp
    then show ?thesis by blast
  qed
  have A: "(if currBytes s' ! i AND pos ! b = 0 then Release (- 1) else Press (- 1)) \<in> set cs"
    if h: "connected \<and> r = Some (s', ps') \<and> wheelIdentified s' \<and> i < 4 \<and> b < 8 \<and>
          bit2btn s' ! (i * 8 + b) = - 1 \<and>
          (currBytes s' ! i AND pos ! b) \<noteq> (prevBytes s ! i AND pos ! b)"
  proof -
    from cyc h obtain p ps1 where "loop True s (p # ps1) = Inr (cs, Some (s', ps'))" by blast
    from loop_unmapped_member[OF this] h show ?thesis by blast
  qed
  have B: "filter (\<lambda>c. c = Press (- 1) \<or> c = Release (- 1)) cs =
              map (\<lambda>(i, b). if currBytes s' ! i AND pos ! b = 0 then Release (- 1) else Press (- 1))
                (filter (\<lambda>(i, b). changed (currBytes s') (prevBytes s) (i, b) \<and>
                                    bit2btn s' ! (i * 8 + b) = - 1)
                   (List.product [0..<4] [0..<8]))"
    if h: "connected \<and> r = Some (s', ps') \<and> wheelIdentified s'"
  proof -
    from cyc h obtain p ps1 where "loop True s (p # ps1) = Inr (cs, Some (s', ps'))" by blast
    from loop_unmapped_calls[OF this] h show ?thesis by blast
  qed
  have C: "processBit tbl cb pb i b = Inr [if cb ! i AND pos ! b = 0 then Release (- 1) else Press (- 1)]"
    if "tbl ! (i * 8 + b) = - 1 \<and> (cb ! i AND pos ! b) \<noteq> (pb ! i AND pos ! b)"
    using that by (simp add: processBit_def setButton_def)
  have D: "n = - 1 \<or> (0 \<le> n \<and> n \<le> 20)" if "Press n \<in> set cs \<or> Release n \<in> set cs"
    using that loop_calls_allowed[OF reachable_cycleInv[OF assms(1)] assms(2), of "Press n"]
      loop_calls_allowed[OF reachable_cycleInv[OF assms(1)] assms(2), of "Release n"]
    by auto
  have T: "\<exists>cq sq. loop True s (us @ q # qs) = Inr (cq, Some (sq, qs))"
    if "(\<forall>v\<in>set us. wheelbyte (readWheel v) \<notin> {192, 160, 32}) \<and>
      wheelbyte (readWheel q) \<in> {192, 160, 32}"
    using that loop_returns[of us q s qs] by blast
  from A B C D T show ?thesis by blast
qed

theorem unmapped_bit_forwarded_witness:
  "reachable idle599 \<and>
   loop True idle599 [(0xDF, 0xFF, 0xFF, 0x7F, 0xFF)] =
     Inr ([Release (- 1), Press (- 1), Press 13, SendReport], Some (pushed383, [])) \<and>
   wheelIdentified pushed383 \<and>
   bit2btn pushed383 ! (0 * 8 + 0) = - 1 \<and>
   (currBytes pushed383 ! 0 AND pos ! 0) \<noteq> (prevBytes idle599 ! 0 AND pos ! 0) \<and>
   currBytes pushed383 ! 0 AND pos ! 0 = 0 \<and>
   Release (- 1) \<in> set [Release (- 1), Press (- 1), Press 13, SendReport] \<and>
   bit2btn pushed383 ! (3 * 8 + 0) = - 1 \<and>
   (currBytes pushed383 ! 3 AND pos ! 0) \<noteq> (prevBytes idle599 ! 3 AND pos ! 0) \<and>
   currBytes pushed383 ! 3 AND pos ! 0 \<noteq> 0 \<and>
   Press (- 1) \<in> set [Release (- 1), Press (- 1), Press 13, SendReport] \<and>
   filter (\<lambda>(i, b). changed (currBytes pushed383) (prevBytes idle599) (i, b) \<and>
                       bit2btn pushed383 ! (i * 8 + b) = - 1) (List.product [0..<4] [0..<8])
     = [(0, 0), (3, 0)] \<and>
   filter (\<lambda>c. c = Press (- 1) \<or> c = Release (- 1)) [Release (- 1), Press (- 1), Press 13, SendReport]
     = [Release (- 1), Press (- 1)] \<and>
   R383Btn ! (3 * 8 + 0) = - 1 \<and>
   processBit R383Btn [0x20, 0, 0, 0x80, 0] [0xA0, 0, 0, 0, 0] 3 0 = Inr [Press (- 1)] \<and>
   wheelbyte (readWheel (0xFF, 0xFF, 0xFF, 0xFF, 0xFF)) \<notin> {192, 160, 32} \<and>
   wheelbyte (readWheel (0x5F, 0xFF, 0xFF, 0xFF, 0xFF)) \<in> {192, 160, 32} \<and>
   (\<exists>cq sq. loop True idle599 [(0xFF, 0xFF, 0xFF, 0xFF, 0xFF), (0x5F, 0xFF, 0xFF, 0xFF, 0xFF)] =
      Inr (cq, Some (sq, [])))"
proof -
  have l: "loop True idle599 [(0xDF, 0xFF, 0xFF, 0x7F, 0xFF)] =
     Inr ([Release (- 1), Press (- 1), Press 13, SendReport], Some (pushed383, []))"
    by code_simp
  have f: "wheelIdentified pushed383"
    "bit2btn pushed383 ! (0 * 8 + 0) = - 1"
    "(currBytes pushed383 ! 0 AND pos ! 0) \<noteq> (prevBytes idle599 ! 0 AND pos ! 0)"
    "currBytes pushed383 ! 0 AND pos ! 0 = 0"
    "bit2btn pushed383 ! (3 * 8 + 0) = - 1"
    "(currBytes pushed383 ! 3 AND pos ! 0) \<noteq> (prevBytes idle599 ! 3 AND pos ! 0)"
    "currBytes pushed383 ! 3 AND pos ! 0 \<noteq> 0"
    "R383Btn ! (3 * 8 + 0) = - 1"
    by (simp_all add: pushed383_def idle599_def R383Btn_def pos_def)
  have g: "filter (\<lambda>(i, b). changed (currBytes pushed383) (prevBytes idle599) (i, b) \<and>
                       bit2btn pushed383 ! (i * 8 + b) = - 1) (List.product [0..<4] [0..<8])
     = [(0, 0), (3, 0)]"
    by code_simp
  note t = unmapped_bit_forwarded[OF reachable_idle599 l, where s' = pushed383 and ps' = "[]"]
  have a: "Release (- 1) \<in> set [Release (- 1), Press (- 1), Press 13, SendReport]"
    using t[where i = 0 and b = 0] f by simp
  have b: "Press (- 1) \<in> set [Release (- 1), Press (- 1), Press 13, SendReport]"
    using t[where i = 3 and b = 0] f by simp
  have c: "filter (\<lambda>c. c = Press (- 1) \<or> c = Release (- 1)) [Release (- 1), Press (- 1), Press 13, SendReport]
     = [Release (- 1), Press (- 1)]"
    using t f(1,4,7) g by simp
  have d: "processBit R383Btn [0x20, 0, 0, 0x80, 0] [0xA0, 0, 0, 0, 0] 3 0 = Inr [Press (- 1)]"
    using t[where tbl = R383Btn and i = 3 and b = 0 and cb = "[0x20, 0, 0, 0x80, 0]"
        and pb = "[0xA0, 0, 0, 0, 0]"] f(8)
    by (simp add: pos_def)
  have ret: "wheelbyte (readWheel (0xFF, 0xFF, 0xFF, 0xFF, 0xFF)) \<notin> {192, 160, 32}"
    "wheelbyte (readWheel (0x5F, 0xFF, 0xFF, 0xFF, 0xFF)) \<in> {192, 160, 32}"
    by (simp_all add: wheelbyte_def)
  have ret': "\<exists>cq sq. loop True idle599 [(0xFF, 0xFF, 0xFF, 0xFF, 0xFF), (0x5F, 0xFF, 0xFF, 0xFF, 0xFF)] =
      Inr (cq, Some (sq, []))"
    using t[where us = "[(0xFF, 0xFF, 0xFF, 0xFF, 0xFF)]" and q = "(0x5F, 0xFF, 0xFF, 0xFF, 0xFF)"
        and qs = "[]"] ret
    by simp
  from reachable_idle599 l f g a b c d ret ret' show ?thesis by simp
qed

text \<open>
  C2. Claimed: from the unidentified state, a frame with header 32 and \<open>byte4 & 0x0F = 15\<close>,
  such as \<open>(0x20, 0, 0, 0, 0x0F)\<close>, is identified as the F1 wheel in the same call. In the
  sketch the test for the F1 wheel is the second \<^verbatim>\<open>else if\<close> of
  \<^verbatim>\<open>if (wheelIdentified == false)\<close>, behind \<^verbatim>\<open>else if (wheelbyte == 32)\<close>, so it is
  never reached. The wire bytes \<open>(0xDF, 0xFF, 0xFF, 0xFF, 0xF0)\<close> are read as that frame;
  from the initial state the call leaves the wheel unidentified, and from the state
  \<open>idle599\<close>, where the 599xx wheel is identified, it leaves \<^verbatim>\<open>wheelID\<close> at 2 with
  the 599xx table.
\<close>

theorem F1_frame_not_identified:
  "readWheel (0xDF, 0xFF, 0xFF, 0xFF, 0xF0) = [0x20, 0, 0, 0, 0x0F] \<and>
   wheelbyte [0x20, 0, 0, 0, 0x0F] = 32 \<and> fifthbyte [0x20, 0, 0, 0, 0x0F] = 15 \<and>
   loop True initial [(0xDF, 0xFF, 0xFF, 0xFF, 0xF0)] =
     Inr ([SendReport],
          Some (initial\<lparr>currBytes := [0x20, 0, 0, 0, 0x0F], prevBytes := [0x20, 0, 0, 0, 0x0F]\<rparr>, [])) \<and>
   loop True initial [(0x5F, 0xFF, 0xFF, 0xFF, 0xFF)] =
     Inr ([Press (- 1), Press (- 1), SendReport], Some (idle599, [])) \<and>
   loop True idle599 [(0xDF, 0xFF, 0xFF, 0xFF, 0xF0)] =
     Inr ([Release (- 1), SendReport],
          Some (idle599\<lparr>currBytes := [0x20, 0, 0, 0, 0x0F], prevBytes := [0x20, 0, 0, 0, 0x0F]\<rparr>, []))"
  by code_simp

text \<open>
  C3. Claimed: from the unidentified state, a frame with header 32 and either
  \<open>byte3 & 0x20 = 0\<close> and \<open>byte4 & 0x0F = 0\<close>, or bytes 3 and 4 both \<open>0xFF\<close>, is identified
  as the R383 wheel in the same call. In the sketch the test for the R383 wheel is the
  \<^verbatim>\<open>else\<close> branch of \<^verbatim>\<open>if (wheelIdentified == false)\<close>: it runs only when a wheel is
  identified already. From the initial state the frames \<open>(0x20, 0, 0, 0, 0)\<close> and
  \<open>(0x20, 0, 0, 0xFF, 0xFF)\<close> both leave the wheel unidentified; from the state
  \<open>idle599\<close>, where the 599xx wheel is identified, the first of them loads the R383
  table.
\<close>

theorem R383_frame_not_identified:
  "readWheel (0xDF, 0xFF, 0xFF, 0xFF, 0xFF) = [0x20, 0, 0, 0, 0] \<and>
   sparcoPattern [0x20, 0, 0, 0, 0] \<and>
   loop True initial [(0xDF, 0xFF, 0xFF, 0xFF, 0xFF)] =
     Inr ([SendReport],
          Some (initial\<lparr>currBytes := [0x20, 0, 0, 0, 0], prevBytes := [0x20, 0, 0, 0, 0]\<rparr>, [])) \<and>
   readWheel (0xDF, 0xFF, 0xFF, 0, 0) = [0x20, 0, 0, 0xFF, 0xFF] \<and>
   sparcoPattern [0x20, 0, 0, 0xFF, 0xFF] \<and>
   loop True initial [(0xDF, 0xFF, 0xFF, 0, 0)] =
     Inr ([SendReport],
          Some (initial\<lparr>currBytes := [0x20, 0, 0, 0xFF, 0xFF],
                        prevBytes := [0x20, 0, 0, 0xFF, 0xFF]\<rparr>, [])) \<and>
   loop True idle599 [(0xDF, 0xFF, 0xFF, 0xFF, 0xFF)] =
     Inr ([Release (- 1), SendReport],
          Some (idle599\<lparr>currBytes := [0x20, 0, 0, 0, 0], prevBytes := [0x20, 0, 0, 0, 0],
                        wheelID := 3, bit2btn := R383Btn\<rparr>, []))"
  by code_simp

text \<open>
  C4. Claimed: in the call that identifies a wheel again after an absence, no call is
  derived from comparing the new frame with the frame stored before the disconnect.
  The sketch writes \<^verbatim>\<open>prevBytes\<close> only at the end of \<^verbatim>\<open>loop()\<close>, and the waiting loop
  runs inside one call: when it ends, \<^verbatim>\<open>prevBytes\<close> still holds the frame of the last
  call before the disconnect. With the left paddle of a 599xx held before the disconnect
  (\<open>held599\<close>) and free after it, the call that waits out the absence makes the 22 reset
  calls and then \<^verbatim>\<open>release(0)\<close>, which the new frame alone cannot give; the same polls
  from the state \<open>idle599\<close>, which differs in the stored frames only, give no such call.
\<close>

theorem stale_frame_counterexample:
  "loop True initial [(0x4F, 0xFF, 0xFF, 0xFF, 0xFF)] =
     Inr ([Press (- 1), Press (- 1), Press 0, SendReport], Some (held599, [])) \<and>
   prevBytes held599 = [0xB0, 0, 0, 0, 0] \<and>
   readWheel (0x5F, 0xFF, 0xFF, 0xFF, 0xFF) = [0xA0, 0, 0, 0, 0] \<and>
   loop True held599 [(0xFF, 0xFF, 0xFF, 0xFF, 0xFF), (0x5F, 0xFF, 0xFF, 0xFF, 0xFF)] =
     Inr (resetButtons @ [Release 0, SendReport], Some (idle599, [])) \<and>
   loop True idle599 [(0xFF, 0xFF, 0xFF, 0xFF, 0xFF), (0x5F, 0xFF, 0xFF, 0xFF, 0xFF)] =
     Inr (resetButtons @ [SendReport], Some (idle599, []))"
  by code_simp

text \<open>
  C4, as amended. In the call of \<^verbatim>\<open>loop()\<close> that waits out an absence and then reads a
  frame identified as the 599xx wheel (the only wheel that can be identified in that
  call), the new frame is differenced against \<^verbatim>\<open>prevBytes\<close> as the last call before the
  disconnect stored it: after the reset calls, the calls made are those of the
  differencing of the new frame against that stored frame, and then the report is
  sent. The new frame is stored as \<^verbatim>\<open>prevBytes\<close> for the next call.
\<close>

theorem reidentified_diff_against_stored_frame:
  assumes "wheelbyte (readWheel u) \<notin> {192, 160, 32}"
    and "\<forall>v\<in>set us. wheelbyte (readWheel v) \<notin> {192, 160, 32}"
    and "wheelbyte (readWheel p) = 160" and "fifthbyte (readWheel p) = 0"
  shows "\<exists>ds s'. diffBytes F599Btn (readWheel p) (prevBytes s) = Inr ds \<and>
           loop True s (u # us @ p # ps) = Inr (resetButtons @ ds @ [SendReport], Some (s', ps)) \<and>
           wheelIdentified s' \<and> bit2btn s' = F599Btn \<and> prevBytes s' = readWheel p"
proof -
  have "\<not> plugged (readWheel u)" "\<forall>v\<in>set us. \<not> plugged (readWheel v)" "plugged (readWheel p)"
    using assms(1,2,3) by (simp_all add: plugged_iff)
  from loop_after_absence[OF this, of s ps] assms(3,4) show ?thesis
    by (simp add: diffBytes_Inr)
qed

theorem reidentified_diff_against_stored_frame_witness:
  "wheelbyte (readWheel (0xFF, 0xFF, 0xFF, 0xFF, 0xFF)) \<notin> {192, 160, 32} \<and>
   wheelbyte (readWheel (0, 0, 0, 0, 0)) \<notin> {192, 160, 32} \<and>
   wheelbyte (readWheel (0x5F, 0xFF, 0xFF, 0xFF, 0xFF)) = 160 \<and>
   fifthbyte (readWheel (0x5F, 0xFF, 0xFF, 0xFF, 0xFF)) = 0 \<and>
   diffBytes F599Btn (readWheel (0x5F, 0xFF, 0xFF, 0xFF, 0xFF)) (prevBytes held599) = Inr [Release 0] \<and>
   (\<exists>ds s'. diffBytes F599Btn (readWheel (0x5F, 0xFF, 0xFF, 0xFF, 0xFF)) (prevBytes held599) = Inr ds \<and>
      loop True held599 [(0xFF, 0xFF, 0xFF, 0xFF, 0xFF), (0, 0, 0, 0, 0), (0x5F, 0xFF, 0xFF, 0xFF, 0xFF)] =
        Inr (resetButtons @ ds @ [SendReport], Some (s', [])) \<and>
      wheelIdentified s' \<and> bit2btn s' = F599Btn \<and>
      prevBytes s' = readWheel (0x5F, 0xFF, 0xFF, 0xFF, 0xFF))"
proof -
  have a: "wheelbyte (readWheel (0xFF, 0xFF, 0xFF, 0xFF, 0xFF)) \<notin> {192, 160, 32}"
    and a': "wheelbyte (readWheel (0, 0, 0, 0, 0)) \<notin> {192, 160, 32}"
    and b: "wheelbyte (readWheel (0x5F, 0xFF, 0xFF, 0xFF, 0xFF)) = 160"
    and c: "fifthbyte (readWheel (0x5F, 0xFF, 0xFF, 0xFF, 0xFF)) = 0"
    by (simp_all add: wheelbyte_def fifthbyte_def)
  from a' have us: "\<forall>v\<in>set [(0, 0, 0, 0, 0)]. wheelbyte (readWheel v) \<notin> {192, 160, 32}"
    by simp
  have d: "diffBytes F599Btn (readWheel (0x5F, 0xFF, 0xFF, 0xFF, 0xFF)) (prevBytes held599) = Inr [Release 0]"
    by code_simp
  from reidentified_diff_against_stored_frame[where ps = "[]" and s = held599, OF a us b c]
    a a' b c d show ?thesis by simp
qed

text \<open>
  C5. When the header of the frame read is none of 192, 160, 32, the hat is centred and the
  buttons 0 to 20 are released once, in the first turn of the waiting loop: however many
  more unrecognised polls \<open>us\<close> follow, these 22 calls are all that is made, both while the
  loop is still waiting and when a recognised poll \<open>p\<close> ends it.
\<close>

theorem absence_resets_once:
  assumes "wheelbyte (readWheel u) \<notin> {192, 160, 32}"
    and "\<forall>v\<in>set us. wheelbyte (readWheel v) \<notin> {192, 160, 32}"
  shows "loop True s (u # us) = Inr (SetHat1 HAT_CENTERED # map Release [0..20], None) \<and>
    (wheelbyte (readWheel p) \<in> {192, 160, 32} \<longrightarrow>
       waitForWheel (s\<lparr>currBytes := readWheel u\<rparr>) False (us @ p # ps) =
         (SetHat1 HAT_CENTERED # map Release [0..20],
          Some (s\<lparr>currBytes := readWheel p, wheelIdentified := False\<rparr>, ps)))"
proof -
  have u: "\<not> plugged (currBytes (s\<lparr>currBytes := readWheel u\<rparr>))"
    using assms(1) by (simp add: plugged_iff)
  have us: "\<forall>v\<in>set us. \<not> plugged (readWheel v)"
    using assms(2) by (simp add: plugged_iff)
  have "loop True s (u # us) = Inr (resetButtons, None)"
    using waitForWheel_waiting[OF u us, of False] by (simp add: loop_def)
  moreover have "waitForWheel (s\<lparr>currBytes := readWheel u\<rparr>) False (us @ p # ps) =
         (resetButtons, Some (s\<lparr>currBytes := readWheel p, wheelIdentified := False\<rparr>, ps))"
    if "plugged (readWheel p)"
    using waitForWheel_replugged[OF u us that, of False ps] by simp
  ultimately show ?thesis by (simp add: resetButtons_calls plugged_iff)
qed

theorem absence_resets_once_witness:
  "wheelbyte (readWheel (0xFF, 0xFF, 0xFF, 0xFF, 0xFF)) \<notin> {192, 160, 32} \<and>
   wheelbyte (readWheel (0, 0, 0, 0, 0)) \<notin> {192, 160, 32} \<and>
   wheelbyte (readWheel (0x5F, 0xFF, 0xFF, 0xFF, 0xFF)) \<in> {192, 160, 32} \<and>
   loop True initial [(0xFF, 0xFF, 0xFF, 0xFF, 0xFF), (0, 0, 0, 0, 0), (0xFF, 0xFF, 0xFF, 0xFF, 0xFF)]
     = Inr (SetHat1 HAT_CENTERED # map Release [0..20], None) \<and>
   waitForWheel (initial\<lparr>currBytes := readWheel (0xFF, 0xFF, 0xFF, 0xFF, 0xFF)\<rparr>) False
       [(0, 0, 0, 0, 0), (0xFF, 0xFF, 0xFF, 0xFF, 0xFF), (0x5F, 0xFF, 0xFF, 0xFF, 0xFF)] =
     (SetHat1 HAT_CENTERED # map Release [0..20],
      Some (initial\<lparr>currBytes := readWheel (0x5F, 0xFF, 0xFF, 0xFF, 0xFF), wheelIdentified := False\<rparr>, []))"
  using absence_resets_once[where u = "(0xFF, 0xFF, 0xFF, 0xFF, 0xFF)"
      and us = "[(0, 0, 0, 0, 0), (0xFF, 0xFF, 0xFF, 0xFF, 0xFF)]"
      and p = "(0x5F, 0xFF, 0xFF, 0xFF, 0xFF)" and s = initial and ps = "[]"]
  by (simp add: wheelbyte_def)

text \<open>
  C6. With a wheel identified, a call of \<^verbatim>\<open>loop()\<close> that reads the frame stored as
  \<^verbatim>\<open>prevBytes\<close> makes no button or hat call, the R383's button 13 included: it sends the
  report and leaves the state as it was. In the differencing of any two frames, the
  number of calls made is the number of bits of the first four bytes that changed. A
  changed bit whose entry is a button number 0 to 20 gives \<^verbatim>\<open>press\<close> of that number if
  the bit went from clear to set and \<^verbatim>\<open>release\<close> if it went from set to clear, and that
  is the only call for this button in the differencing; a changed bit whose entry is a
  hat tag gives one \<^verbatim>\<open>setHat1\<close> call, with the direction code if it went from clear to
  set and with the centred code if it went from set to clear.

  The same holds of a whole call of \<^verbatim>\<open>loop()\<close> from a reachable state \<open>s\<close> that returns
  with a wheel identified (state \<open>s'\<close>, calls \<open>cs\<close>), for the frame read against the
  stored frame and the table in force. The calls \<open>cs\<close> are the reset calls, if the first
  poll was unrecognised, followed by calls \<open>rest\<close>, and in \<open>rest\<close>: a bit with a button
  entry that went from clear to set has one \<^verbatim>\<open>press\<close> and no \<^verbatim>\<open>release\<close> of its button,
  one that went from set to clear has one \<^verbatim>\<open>release\<close> and no \<^verbatim>\<open>press\<close>, one that did
  not change has neither; there are as many \<^verbatim>\<open>setHat1\<close> calls as changed bits with a
  hat tag, among them the direction code of a hat bit that went from clear to set and
  the centred code for one that went from set to clear. A call of \<^verbatim>\<open>loop()\<close> does
  return once a poll with a recognised header is read.
\<close>

theorem change_events:
  "(reachable s \<and> wheelIdentified s \<and> readWheel p = prevBytes s \<longrightarrow>
      loop True s (p # ps) = Inr ([SendReport], Some (s, ps))) \<and>
   (\<exists>ds. diffBytes tbl cb pb = Inr ds \<and>
      length ds = length (filter (changed cb pb) (List.product [0..<4] [0..<8]))) \<and>
   (tbl \<in> {F599Btn, R383Btn, F1Btn} \<and> i < 4 \<and> b < 8 \<and>
    0 \<le> tbl ! (i * 8 + b) \<and> tbl ! (i * 8 + b) \<le> 20 \<and>
    pb ! i AND pos ! b = 0 \<and> cb ! i AND pos ! b \<noteq> 0 \<longrightarrow>
      processBit tbl cb pb i b = Inr [Press (tbl ! (i * 8 + b))] \<and>
      (\<exists>ds. diffBytes tbl cb pb = Inr ds \<and>
         count_list ds (Press (tbl ! (i * 8 + b))) = 1 \<and>
         count_list ds (Release (tbl ! (i * 8 + b))) = 0)) \<and>
   (tbl \<in> {F599Btn, R383Btn, F1Btn} \<and> i < 4 \<and> b < 8 \<and>
    0 \<le> tbl ! (i * 8 + b) \<and> tbl ! (i * 8 + b) \<le> 20 \<and>
    pb ! i AND pos ! b \<noteq> 0 \<and> cb ! i AND pos ! b = 0 \<longrightarrow>
      processBit tbl cb pb i b = Inr [Release (tbl ! (i * 8 + b))] \<and>
      (\<exists>ds. diffBytes tbl cb pb = Inr ds \<and>
         count_list ds (Release (tbl ! (i * 8 + b))) = 1 \<and>
         count_list ds (Press (tbl ! (i * 8 + b))) = 0)) \<and>
   (31 \<le> tbl ! (i * 8 + b) \<and> tbl ! (i * 8 + b) \<le> 34 \<and>
    pb ! i AND pos ! b = 0 \<and> cb ! i AND pos ! b \<noteq> 0 \<longrightarrow>
      processBit tbl cb pb i b = Inr [SetHat1 (2 * (tbl ! (i * 8 + b) - 31) + 1)]) \<and>
   (31 \<le> tbl ! (i * 8 + b) \<and> tbl ! (i * 8 + b) \<le> 34 \<and>
    pb ! i AND pos ! b \<noteq> 0 \<and> cb ! i AND pos ! b = 0 \<longrightarrow>
      processBit tbl cb pb i b = Inr [SetHat1 HAT_CENTERED]) \<and>
   (reachable s \<and> loop True s (p # ps) = Inr (cs, Some (s', ps')) \<and> wheelIdentified s' \<and>
    i < 4 \<and> b < 8 \<longrightarrow>
      (\<exists>rest. cs = (if wheelbyte (readWheel p) \<in> {192, 160, 32} then [] else resetButtons) @ rest \<and>
         length (filter isSetHat1 rest) =
           length (filter (\<lambda>(i, b). changed (currBytes s') (prevBytes s) (i, b) \<and>
                      31 \<le> bit2btn s' ! (i * 8 + b) \<and> bit2btn s' ! (i * 8 + b) \<le> 34)
              (List.product [0..<4] [0..<8])) \<and>
         (0 \<le> bit2btn s' ! (i * 8 + b) \<and> bit2btn s' ! (i * 8 + b) \<le> 20 \<and>
          prevBytes s ! i AND pos ! b = 0 \<and> currBytes s' ! i AND pos ! b \<noteq> 0 \<longrightarrow>
            count_list rest (Press (bit2btn s' ! (i * 8 + b))) = 1 \<and>
            count_list rest (Release (bit2btn s' ! (i * 8 + b))) = 0) \<and>
         (0 \<le> bit2btn s' ! (i * 8 + b) \<and> bit2btn s' ! (i * 8 + b) \<le> 20 \<and>
          prevBytes s ! i AND pos ! b \<noteq> 0 \<and> currBytes s' ! i AND pos ! b = 0 \<longrightarrow>
            count_list rest (Release (bit2btn s' ! (i * 8 + b))) = 1 \<and>
            count_list rest (Press (bit2btn s' ! (i * 8 + b))) = 0) \<and>
         (0 \<le> bit2btn s' ! (i * 8 + b) \<and> bit2btn s' ! (i * 8 + b) \<le> 20 \<and>
          (currBytes s' ! i AND pos ! b) = (prevBytes s ! i AND pos ! b) \<longrightarrow>
            count_list rest (Press (bit2btn s' ! (i * 8 + b))) = 0 \<and>
            count_list rest (Release (bit2btn s' ! (i * 8 + b))) = 0) \<and>
         (31 \<le> bit2btn s' ! (i * 8 + b) \<and> bit2btn s' ! (i * 8 + b) \<le> 34 \<and>
          prevBytes s ! i AND pos ! b = 0 \<and> currBytes s' ! i AND pos ! b \<noteq> 0 \<longrightarrow>
            SetHat1 (2 * (bit2btn s' ! (i * 8 + b) - 31) + 1) \<in> set rest) \<and>
         (31 \<le> bit2btn s' ! (i * 8 + b) \<and> bit2btn s' ! (i * 8 + b) \<le> 34 \<and>
          prevBytes s ! i AND pos ! b \<noteq> 0 \<and> currBytes s' ! i AND pos ! b = 0 \<longrightarrow>
            SetHat1 HAT_CENTERED \<in> set rest))) \<and>
   ((\<forall>v\<in>set us. wheelbyte (readWheel v) \<notin> {192, 160, 32}) \<and>
    wheelbyte (readWheel q) \<in> {192, 160, 32} \<longrightarrow>
      (\<exists>cq sq. loop True s (us @ q # qs) = Inr (cq, Some (sq, qs))))"
proof -
  have A: "loop True s (p # ps) = Inr ([SendReport], Some (s, ps))"
    if "reachable s \<and> wheelIdentified s \<and> readWheel p = prevBytes s"
    using that loop_same_frame by blast
  have B: "\<exists>ds. diffBytes tbl cb pb = Inr ds \<and>
      length ds = length (filter (changed cb pb) (List.product [0..<4] [0..<8]))"
    using diffBytes_length[of tbl cb pb] by (simp add: diffBytes_Inr)
  have C: "processBit tbl cb pb i b = Inr [Press (tbl ! (i * 8 + b))] \<and>
      (\<exists>ds. diffBytes tbl cb pb = Inr ds \<and>
         count_list ds (Press (tbl ! (i * 8 + b))) = 1 \<and>
         count_list ds (Release (tbl ! (i * 8 + b))) = 0)"
    if h: "tbl \<in> {F599Btn, R383Btn, F1Btn} \<and> i < 4 \<and> b < 8 \<and>
      0 \<le> tbl ! (i * 8 + b) \<and> tbl ! (i * 8 + b) \<le> 20 \<and>
      pb ! i AND pos ! b = 0 \<and> cb ! i AND pos ! b \<noteq> 0"
  proof -
    from h have "processBit tbl cb pb i b = Inr [Press (tbl ! (i * 8 + b))]"
      by (simp add: processBit_def setButton_def)
    moreover from h have "count_list (projr (diffBytes tbl cb pb)) (Press (tbl ! (i * 8 + b))) = 1"
      using diffBytes_count_Press[of tbl i b cb pb] by simp
    moreover from h have "count_list (projr (diffBytes tbl cb pb)) (Release (tbl ! (i * 8 + b))) = 0"
      using diffBytes_count_Release[of tbl i b cb pb] by simp
    ultimately show ?thesis by (simp add: diffBytes_Inr)
  qed
  have D: "processBit tbl cb pb i b = Inr [Release (tbl ! (i * 8 + b))] \<and>
      (\<exists>ds. diffBytes tbl cb pb = Inr ds \<and>
         count_list ds (Release (tbl ! (i * 8 + b))) = 1 \<and>
         count_list ds (Press (tbl ! (i * 8 + b))) = 0)"
    if h: "tbl \<in> {F599Btn, R383Btn, F1Btn} \<and> i < 4 \<and> b < 8 \<and>
      0 \<le> tbl ! (i * 8 + b) \<and> tbl ! (i * 8 + b) \<le> 20 \<and>
      pb ! i AND pos ! b \<noteq> 0 \<and> cb ! i AND pos ! b = 0"
  proof -
    from h have "processBit tbl cb pb i b = Inr [Release (tbl ! (i * 8 + b))]"
      by (simp add: processBit_def setButton_def)
    moreover from h have "count_list (projr (diffBytes tbl cb pb)) (Release (tbl ! (i * 8 + b))) = 1"
      using diffBytes_count_Release[of tbl i b cb pb] by simp
    moreover from h have "count_list (projr (diffBytes tbl cb pb)) (Press (tbl ! (i * 8 + b))) = 0"
      using diffBytes_count_Press[of tbl i b cb pb] by simp
    ultimately show ?thesis by (simp add: diffBytes_Inr)
  qed
  have E: "processBit tbl cb pb i b = Inr [SetHat1 (2 * (tbl ! (i * 8 + b) - 31) + 1)]"
    if "31 \<le> tbl ! (i * 8 + b) \<and> tbl ! (i * 8 + b) \<le> 34 \<and>
      pb ! i AND pos ! b = 0 \<and> cb ! i AND pos ! b \<noteq> 0"
    using that by (simp add: processBit_def convertHat_tag)
  have F: "processBit tbl cb pb i b = Inr [SetHat1 HAT_CENTERED]"
    if "31 \<le> tbl ! (i * 8 + b) \<and> tbl ! (i * 8 + b) \<le> 34 \<and>
      pb ! i AND pos ! b \<noteq> 0 \<and> cb ! i AND pos ! b = 0"
    using that by (simp add: processBit_def)
  have G: "\<exists>rest. cs = (if wheelbyte (readWheel p) \<in> {192, 160, 32} then [] else resetButtons) @ rest \<and>
         length (filter isSetHat1 rest) =
           length (filter (\<lambda>(i, b). changed (currBytes s') (prevBytes s) (i, b) \<and>
                      31 \<le> bit2btn s' ! (i * 8 + b) \<and> bit2btn s' ! (i * 8 + b) \<le> 34)
              (List.product [0..<4] [0..<8])) \<and>
         (0 \<le> bit2btn s' ! (i * 8 + b) \<and> bit2btn s' ! (i * 8 + b) \<le> 20 \<and>
          prevBytes s ! i AND pos ! b = 0 \<and> currBytes s' ! i AND pos ! b \<noteq> 0 \<longrightarrow>
            count_list rest (Press (bit2btn s' ! (i * 8 + b))) = 1 \<and>
            count_list rest (Release (bit2btn s' ! (i * 8 + b))) = 0) \<and>
         (0 \<le> bit2btn s' ! (i * 8 + b) \<and> bit2btn s' ! (i * 8 + b) \<le> 20 \<and>
          prevBytes s ! i AND pos ! b \<noteq> 0 \<and> currBytes s' ! i AND pos ! b = 0 \<longrightarrow>
            count_list rest (Release (bit2btn s' ! (i * 8 + b))) = 1 \<and>
            count_list rest (Press (bit2btn s' ! (i * 8 + b))) = 0) \<and>
         (0 \<le> bit2btn s' ! (i * 8 + b) \<and> bit2btn s' ! (i * 8 + b) \<le> 20 \<and>
          (currBytes s' ! i AND pos ! b) = (prevBytes s ! i AND pos ! b) \<longrightarrow>
            count_list rest (Press (bit2btn s' ! (i * 8 + b))) = 0 \<and>
            count_list rest (Release (bit2btn s' ! (i * 8 + b))) = 0) \<and>
         (31 \<le> bit2btn s' ! (i * 8 + b) \<and> bit2btn s' ! (i * 8 + b) \<le> 34 \<and>
          prevBytes s ! i AND pos ! b = 0 \<and> currBytes s' ! i AND pos ! b \<noteq> 0 \<longrightarrow>
            SetHat1 (2 * (bit2btn s' ! (i * 8 + b) - 31) + 1) \<in> set rest) \<and>
         (31 \<le> bit2btn s' ! (i * 8 + b) \<and> bit2btn s' ! (i * 8 + b) \<le> 34 \<and>
          prevBytes s ! i AND pos ! b \<noteq> 0 \<and> currBytes s' ! i AND pos ! b = 0 \<longrightarrow>
            SetHat1 HAT_CENTERED \<in> set rest)"
    if h: "reachable s \<and> loop True s (p # ps) = Inr (cs, Some (s', ps')) \<and> wheelIdentified s' \<and>
      i < 4 \<and> b < 8"
  proof -
    from h loop_change_calls[of s p ps cs s' ps' i b] obtain rest where
      r: "cs = (if plugged (readWheel p) then [] else resetButtons) @ rest"
        "length (filter isSetHat1 rest) =
           length (filter (\<lambda>(i, b). changed (currBytes s') (prevBytes s) (i, b) \<and>
                      31 \<le> bit2btn s' ! (i * 8 + b) \<and> bit2btn s' ! (i * 8 + b) \<le> 34)
              (List.product [0..<4] [0..<8]))"
        "0 \<le> bit2btn s' ! (i * 8 + b) \<and> bit2btn s' ! (i * 8 + b) \<le> 20 \<longrightarrow>
           count_list rest (Press (bit2btn s' ! (i * 8 + b))) =
             (if (currBytes s' ! i AND pos ! b) \<noteq> (prevBytes s ! i AND pos ! b) \<and>
                 currBytes s' ! i AND pos ! b \<noteq> 0 then 1 else 0) \<and>
           count_list rest (Release (bit2btn s' ! (i * 8 + b))) =
             (if (currBytes s' ! i AND pos ! b) \<noteq> (prevBytes s ! i AND pos ! b) \<and>
                 currBytes s' ! i AND pos ! b = 0 then 1 else 0)"
        "31 \<le> bit2btn s' ! (i * 8 + b) \<and> bit2btn s' ! (i * 8 + b) \<le> 34 \<and>
         (currBytes s' ! i AND pos ! b) \<noteq> (prevBytes s ! i AND pos ! b) \<longrightarrow>
           SetHat1 (if currBytes s' ! i AND pos ! b = 0 then HAT_CENTERED
                    else 2 * (bit2btn s' ! (i * 8 + b) - 31) + 1) \<in> set rest"
      by blast
    show ?thesis
      by (rule exI[of _ rest]) (use r in \<open>auto simp: plugged_iff\<close>)
  qed
  have T: "\<exists>cq sq. loop True s (us @ q # qs) = Inr (cq, Some (sq, qs))"
    if "(\<forall>v\<in>set us. wheelbyte (readWheel v) \<notin> {192, 160, 32}) \<and>
      wheelbyte (readWheel q) \<in> {192, 160, 32}"
    using that loop_returns[of us q s qs] by blast
  from A B C D E F G T show ?thesis by blast
qed

theorem change_events_witness:
  "reachable idle599 \<and> wheelIdentified idle599 \<and>
   readWheel (0x5F, 0xFF, 0xFF, 0xFF, 0xFF) = prevBytes idle599 \<and>
   loop True idle599 [(0x5F, 0xFF, 0xFF, 0xFF, 0xFF)] = Inr ([SendReport], Some (idle599, [])) \<and>
   reachable pushed383 \<and> wheelIdentified pushed383 \<and> hatPushed (prevBytes pushed383) \<and>
   readWheel (0xDF, 0xFF, 0xFF, 0x7F, 0xFF) = prevBytes pushed383 \<and>
   loop True pushed383 [(0xDF, 0xFF, 0xFF, 0x7F, 0xFF)] = Inr ([SendReport], Some (pushed383, [])) \<and>
   F599Btn ! (0 * 8 + 3) = 0 \<and>
   processBit F599Btn [0xB0, 0, 0, 0, 0] [0xA0, 0, 0, 0, 0] 0 3 = Inr [Press 0] \<and>
   diffBytes F599Btn [0xB0, 0, 0, 0, 0] [0xA0, 0, 0, 0, 0] = Inr [Press 0] \<and>
   processBit F599Btn [0xA0, 0, 0, 0, 0] [0xB0, 0, 0, 0, 0] 0 3 = Inr [Release 0] \<and>
   diffBytes F599Btn [0xA0, 0, 0, 0, 0] [0xB0, 0, 0, 0, 0] = Inr [Release 0] \<and>
   R383Btn ! (2 * 8 + 2) = 34 \<and>
   processBit R383Btn [0x20, 0, 0x20, 0, 0] [0x20, 0, 0, 0, 0] 2 2 = Inr [SetHat1 7] \<and>
   processBit R383Btn [0x20, 0, 0, 0, 0] [0x20, 0, 0x20, 0, 0] 2 2 = Inr [SetHat1 HAT_CENTERED] \<and>
   loop True idle599 [(0x4F, 0xFF, 0xFF, 0xFF, 0xFF)] = Inr ([Press 0, SendReport], Some (held599, [])) \<and>
   wheelIdentified held599 \<and> bit2btn held599 ! (0 * 8 + 3) = 0 \<and>
   prevBytes idle599 ! 0 AND pos ! 3 = 0 \<and> currBytes held599 ! 0 AND pos ! 3 \<noteq> 0 \<and>
   wheelbyte (readWheel (0x4F, 0xFF, 0xFF, 0xFF, 0xFF)) \<in> {192, 160, 32} \<and>
   (\<exists>rest. [Press 0, SendReport] = rest \<and>
      count_list rest (Press 0) = 1 \<and> count_list rest (Release 0) = 0) \<and>
   reachable held599 \<and>
   loop True held599 [(0xFF, 0xFF, 0xFF, 0xFF, 0xFF), (0x5F, 0xFF, 0xFF, 0xFF, 0xFF)] =
     Inr (resetButtons @ [Release 0, SendReport], Some (idle599, [])) \<and>
   prevBytes held599 ! 0 AND pos ! 3 \<noteq> 0 \<and> currBytes idle599 ! 0 AND pos ! 3 = 0 \<and>
   wheelbyte (readWheel (0xFF, 0xFF, 0xFF, 0xFF, 0xFF)) \<notin> {192, 160, 32} \<and>
   (\<exists>rest. resetButtons @ [Release 0, SendReport] = resetButtons @ rest \<and>
      count_list rest (Release 0) = 1 \<and> count_list rest (Press 0) = 0) \<and>
   loop True pushed383 [(0xDF, 0xFF, 0xDF, 0x7F, 0xFF)] =
     Inr ([SetHat1 7, Release 13, SendReport], Some (left383, [])) \<and>
   wheelIdentified left383 \<and> bit2btn left383 ! (2 * 8 + 2) = 34 \<and>
   prevBytes pushed383 ! 2 AND pos ! 2 = 0 \<and> currBytes left383 ! 2 AND pos ! 2 \<noteq> 0 \<and>
   (\<exists>rest. [SetHat1 7, Release 13, SendReport] = rest \<and>
      length (filter isSetHat1 rest) = 1 \<and> SetHat1 7 \<in> set rest) \<and>
   wheelbyte (readWheel (0xFF, 0xFF, 0xFF, 0xFF, 0xFF)) \<notin> {192, 160, 32} \<and>
   wheelbyte (readWheel (0x5F, 0xFF, 0xFF, 0xFF, 0xFF)) \<in> {192, 160, 32} \<and>
   (\<exists>cq sq. loop True held599 [(0xFF, 0xFF, 0xFF, 0xFF, 0xFF), (0x5F, 0xFF, 0xFF, 0xFF, 0xFF)] =
      Inr (cq, Some (sq, [])))"
proof -
  have l1: "loop True idle599 [(0x4F, 0xFF, 0xFF, 0xFF, 0xFF)] = Inr ([Press 0, SendReport], Some (held599, []))"
    by code_simp
  have l2: "loop True held599 [(0xFF, 0xFF, 0xFF, 0xFF, 0xFF), (0x5F, 0xFF, 0xFF, 0xFF, 0xFF)] =
     Inr (resetButtons @ [Release 0, SendReport], Some (idle599, []))"
    by code_simp
  have l3: "loop True pushed383 [(0xDF, 0xFF, 0xDF, 0x7F, 0xFF)] =
     Inr ([SetHat1 7, Release 13, SendReport], Some (left383, []))"
    by code_simp
  have rh: "reachable held599"
    by (rule reachable.step[OF reachable_idle599 l1])
  have f: "wheelIdentified held599" "bit2btn held599 ! (0 * 8 + 3) = 0"
    "prevBytes idle599 ! 0 AND pos ! 3 = 0" "currBytes held599 ! 0 AND pos ! 3 \<noteq> 0"
    "wheelbyte (readWheel (0x4F, 0xFF, 0xFF, 0xFF, 0xFF)) \<in> {192, 160, 32}"
    "prevBytes held599 ! 0 AND pos ! 3 \<noteq> 0" "currBytes idle599 ! 0 AND pos ! 3 = 0"
    "wheelbyte (readWheel (0xFF, 0xFF, 0xFF, 0xFF, 0xFF)) \<notin> {192, 160, 32}"
    "wheelIdentified left383" "bit2btn left383 ! (2 * 8 + 2) = 34"
    "prevBytes pushed383 ! 2 AND pos ! 2 = 0" "currBytes left383 ! 2 AND pos ! 2 \<noteq> 0"
    "bit2btn idle599 ! (0 * 8 + 3) = 0" "wheelIdentified idle599"
    by (simp_all add: held599_def idle599_def left383_def pushed383_def F599Btn_def R383Btn_def
        pos_def wheelbyte_def)
  have c1: "\<exists>rest. [Press 0, SendReport] = rest \<and>
      count_list rest (Press 0) = 1 \<and> count_list rest (Release 0) = 0"
    using change_events[where s = idle599 and p = "(0x4F, 0xFF, 0xFF, 0xFF, 0xFF)" and ps = "[]"
        and cs = "[Press 0, SendReport]" and s' = held599 and ps' = "[]" and i = 0 and b = 3]
      reachable_idle599 l1 f
    by simp
  have c2: "\<exists>rest. resetButtons @ [Release 0, SendReport] = resetButtons @ rest \<and>
      count_list rest (Release 0) = 1 \<and> count_list rest (Press 0) = 0"
    using change_events[where s = held599
        and p = "(0xFF, 0xFF, 0xFF, 0xFF, 0xFF)" and ps = "[(0x5F, 0xFF, 0xFF, 0xFF, 0xFF)]"
        and cs = "resetButtons @ [Release 0, SendReport]" and s' = idle599 and ps' = "[]"
        and i = 0 and b = 3]
      rh l2 f
    by simp
  have c3: "\<exists>rest. [SetHat1 7, Release 13, SendReport] = rest \<and>
      length (filter isSetHat1 rest) = 1 \<and> SetHat1 7 \<in> set rest"
    using change_events[where s = pushed383 and p = "(0xDF, 0xFF, 0xDF, 0x7F, 0xFF)" and ps = "[]"
        and cs = "[SetHat1 7, Release 13, SendReport]" and s' = left383 and ps' = "[]"
        and i = 2 and b = 2]
      reachable_pushed383 l3 f
    by simp
  have w: "wheelIdentified idle599" "readWheel (0x5F, 0xFF, 0xFF, 0xFF, 0xFF) = prevBytes idle599"
    by (simp_all add: idle599_def)
  have a: "loop True idle599 [(0x5F, 0xFF, 0xFF, 0xFF, 0xFF)] = Inr ([SendReport], Some (idle599, []))"
    using change_events[where s = idle599 and p = "(0x5F, 0xFF, 0xFF, 0xFF, 0xFF)" and ps = "[]"]
      reachable_idle599 w by blast
  have w': "wheelIdentified pushed383" "hatPushed (prevBytes pushed383)"
    "readWheel (0xDF, 0xFF, 0xFF, 0x7F, 0xFF) = prevBytes pushed383"
    by (simp_all add: pushed383_def hatPushed_def pos_def)
  have a': "loop True pushed383 [(0xDF, 0xFF, 0xFF, 0x7F, 0xFF)] = Inr ([SendReport], Some (pushed383, []))"
    using change_events[where s = pushed383 and p = "(0xDF, 0xFF, 0xFF, 0x7F, 0xFF)" and ps = "[]"]
      reachable_pushed383 w' by blast
  have e: "F599Btn ! (0 * 8 + 3) = 0" "R383Btn ! (2 * 8 + 2) = 34"
    by (simp_all add: F599Btn_def R383Btn_def)
  have pr: "processBit F599Btn [0xB0, 0, 0, 0, 0] [0xA0, 0, 0, 0, 0] 0 3 = Inr [Press 0]"
    using change_events[where tbl = F599Btn and i = 0 and b = 3 and cb = "[0xB0, 0, 0, 0, 0]"
        and pb = "[0xA0, 0, 0, 0, 0]"]
    by (simp add: F599Btn_def pos_def)
  have re: "processBit F599Btn [0xA0, 0, 0, 0, 0] [0xB0, 0, 0, 0, 0] 0 3 = Inr [Release 0]"
    using change_events[where tbl = F599Btn and i = 0 and b = 3 and pb = "[0xB0, 0, 0, 0, 0]"
        and cb = "[0xA0, 0, 0, 0, 0]"]
    by (simp add: F599Btn_def pos_def)
  have d: "diffBytes F599Btn [0xB0, 0, 0, 0, 0] [0xA0, 0, 0, 0, 0] = Inr [Press 0]"
    "diffBytes F599Btn [0xA0, 0, 0, 0, 0] [0xB0, 0, 0, 0, 0] = Inr [Release 0]"
    by code_simp+
  have h1: "processBit R383Btn [0x20, 0, 0x20, 0, 0] [0x20, 0, 0, 0, 0] 2 2 = Inr [SetHat1 7]"
    using change_events[where tbl = R383Btn and i = 2 and b = 2 and cb = "[0x20, 0, 0x20, 0, 0]"
        and pb = "[0x20, 0, 0, 0, 0]"]
    by (simp add: R383Btn_def pos_def)
  have h2: "processBit R383Btn [0x20, 0, 0, 0, 0] [0x20, 0, 0x20, 0, 0] 2 2 = Inr [SetHat1 HAT_CENTERED]"
    using change_events[where tbl = R383Btn and i = 2 and b = 2 and pb = "[0x20, 0, 0x20, 0, 0]"
        and cb = "[0x20, 0, 0, 0, 0]"]
    by (simp add: R383Btn_def pos_def)
  have ret: "wheelbyte (readWheel (0xFF, 0xFF, 0xFF, 0xFF, 0xFF)) \<notin> {192, 160, 32}"
    "wheelbyte (readWheel (0x5F, 0xFF, 0xFF, 0xFF, 0xFF)) \<in> {192, 160, 32}"
    by (simp_all add: wheelbyte_def)
  have ret': "\<exists>cq sq. loop True held599 [(0xFF, 0xFF, 0xFF, 0xFF, 0xFF), (0x5F, 0xFF, 0xFF, 0xFF, 0xFF)] =
      Inr (cq, Some (sq, []))"
    using change_events[where us = "[(0xFF, 0xFF, 0xFF, 0xFF, 0xFF)]" and q = "(0x5F, 0xFF, 0xFF, 0xFF, 0xFF)"
        and qs = "[]" and s = held599] ret
    by simp
  from reachable_idle599 w a reachable_pushed383 w' a' e pr re d h1 h2 l1 l2 l3 rh f c1 c2 c3 ret ret'
  show ?thesis by simp
qed

text \<open>
  C7. In every call of \<^verbatim>\<open>loop()\<close> that returns with a wheel identified (state \<open>s\<close>
  before, \<open>s'\<close> after, calls \<open>cs\<close>): when a bit whose entry in the table in force is a
  hat tag, 31 to 34, differs between the frame read and the stored frame, \<open>cs\<close> contains
  a \<^verbatim>\<open>setHat1\<close> call with the centred code if the bit is now clear, whatever the stored
  frame and the tag were, and otherwise with 1, 3, 5, 7 for the raw codes 0, 1, 2, 3 (the
  tag minus 31). The \<^verbatim>\<open>setHat1\<close> calls in \<open>cs\<close> are exactly these, one for each such bit in
  the order of the bits, after the one of the reset if the first poll was unrecognised.
  The body of the loops makes this one call for such a bit, \<^verbatim>\<open>convertHat\<close> turns 0, 1,
  2, 3 into 1, 3, 5, 7, and the centred code is none of 1, 3, 5, 7. A call of
  \<^verbatim>\<open>loop()\<close> does return once a poll with a recognised header is read.
\<close>

theorem hat_bit_change:
  "(loop True s (p # ps) = Inr (cs, Some (s', ps')) \<and> wheelIdentified s' \<and> i < 4 \<and> b < 8 \<and>
    31 \<le> bit2btn s' ! (i * 8 + b) \<and> bit2btn s' ! (i * 8 + b) \<le> 34 \<and>
    (currBytes s' ! i AND pos ! b) \<noteq> (prevBytes s ! i AND pos ! b) \<longrightarrow>
      SetHat1 (if currBytes s' ! i AND pos ! b = 0 then HAT_CENTERED
               else [1, 3, 5, 7] ! nat (bit2btn s' ! (i * 8 + b) - 31)) \<in> set cs) \<and>
   (loop True s (p # ps) = Inr (cs, Some (s', ps')) \<and> wheelIdentified s' \<longrightarrow>
      filter isSetHat1 cs =
        (if wheelbyte (readWheel p) \<in> {192, 160, 32} then [] else [SetHat1 HAT_CENTERED]) @
        map (\<lambda>(i, b). SetHat1 (if currBytes s' ! i AND pos ! b = 0 then HAT_CENTERED
                                 else [1, 3, 5, 7] ! nat (bit2btn s' ! (i * 8 + b) - 31)))
          (filter (\<lambda>(i, b). changed (currBytes s') (prevBytes s) (i, b) \<and>
                     31 \<le> bit2btn s' ! (i * 8 + b) \<and> bit2btn s' ! (i * 8 + b) \<le> 34)
             (List.product [0..<4] [0..<8]))) \<and>
   (31 \<le> tbl ! (i * 8 + b) \<and> tbl ! (i * 8 + b) \<le> 34 \<and>
    (cb ! i AND pos ! b) \<noteq> (pb ! i AND pos ! b) \<longrightarrow>
      processBit tbl cb pb i b =
        Inr [SetHat1 (if cb ! i AND pos ! b = 0 then HAT_CENTERED
                      else [1, 3, 5, 7] ! nat (tbl ! (i * 8 + b) - 31))]) \<and>
   map convertHat [0, 1, 2, 3] = map (\<lambda>h. Inr [SetHat1 h]) [1, 3, 5, 7] \<and>
   HAT_CENTERED \<notin> {1, 3, 5, 7} \<and>
   ((\<forall>v\<in>set us. wheelbyte (readWheel v) \<notin> {192, 160, 32}) \<and>
    wheelbyte (readWheel q) \<in> {192, 160, 32} \<longrightarrow>
      (\<exists>cq sq. loop True s (us @ q # qs) = Inr (cq, Some (sq, qs))))"
proof -
  have A: "SetHat1 (if currBytes s' ! i AND pos ! b = 0 then HAT_CENTERED
               else [1, 3, 5, 7] ! nat (bit2btn s' ! (i * 8 + b) - 31)) \<in> set cs"
    if h: "loop True s (p # ps) = Inr (cs, Some (s', ps')) \<and> wheelIdentified s' \<and> i < 4 \<and> b < 8 \<and>
      31 \<le> bit2btn s' ! (i * 8 + b) \<and> bit2btn s' ! (i * 8 + b) \<le> 34 \<and>
      (currBytes s' ! i AND pos ! b) \<noteq> (prevBytes s ! i AND pos ! b)"
    using loop_hat_member[of s p ps cs s' ps' i b] h by blast
  have B: "filter isSetHat1 cs =
        (if wheelbyte (readWheel p) \<in> {192, 160, 32} then [] else [SetHat1 HAT_CENTERED]) @
        map (\<lambda>(i, b). SetHat1 (if currBytes s' ! i AND pos ! b = 0 then HAT_CENTERED
                                 else [1, 3, 5, 7] ! nat (bit2btn s' ! (i * 8 + b) - 31)))
          (filter (\<lambda>(i, b). changed (currBytes s') (prevBytes s) (i, b) \<and>
                     31 \<le> bit2btn s' ! (i * 8 + b) \<and> bit2btn s' ! (i * 8 + b) \<le> 34)
             (List.product [0..<4] [0..<8]))"
    if h: "loop True s (p # ps) = Inr (cs, Some (s', ps')) \<and> wheelIdentified s'"
    using loop_hat_calls[of s p ps cs s' ps'] h unfolding plugged_iff by blast
  have C: "processBit tbl cb pb i b =
        Inr [SetHat1 (if cb ! i AND pos ! b = 0 then HAT_CENTERED
                      else [1, 3, 5, 7] ! nat (tbl ! (i * 8 + b) - 31))]"
    if h: "31 \<le> tbl ! (i * 8 + b) \<and> tbl ! (i * 8 + b) \<le> 34 \<and>
      (cb ! i AND pos ! b) \<noteq> (pb ! i AND pos ! b)"
  proof -
    from h have "tbl ! (i * 8 + b) = 31 \<or> tbl ! (i * 8 + b) = 32 \<or>
      tbl ! (i * 8 + b) = 33 \<or> tbl ! (i * 8 + b) = 34" by arith
    then show ?thesis using h by (auto simp: processBit_def convertHat_cases)
  qed
  have D: "map convertHat [0, 1, 2, 3] = map (\<lambda>h. Inr [SetHat1 h]) [1, 3, 5, 7]"
    "HAT_CENTERED \<notin> {1, 3, 5, 7}"
    by (simp_all add: convertHat_cases HAT_CENTERED_def)
  have T: "\<exists>cq sq. loop True s (us @ q # qs) = Inr (cq, Some (sq, qs))"
    if "(\<forall>v\<in>set us. wheelbyte (readWheel v) \<notin> {192, 160, 32}) \<and>
      wheelbyte (readWheel q) \<in> {192, 160, 32}"
    using that loop_returns[of us q s qs] by blast
  from A B C D T show ?thesis by blast
qed

theorem hat_bit_change_witness:
  "loop True pushed383 [(0xDF, 0xFF, 0xDF, 0x7F, 0xFF)] =
     Inr ([SetHat1 7, Release 13, SendReport], Some (left383, [])) \<and>
   wheelIdentified left383 \<and> bit2btn left383 ! (2 * 8 + 2) = 34 \<and>
   (currBytes left383 ! 2 AND pos ! 2) \<noteq> (prevBytes pushed383 ! 2 AND pos ! 2) \<and>
   currBytes left383 ! 2 AND pos ! 2 \<noteq> 0 \<and>
   SetHat1 7 \<in> set [SetHat1 7, Release 13, SendReport] \<and>
   filter isSetHat1 [SetHat1 7, Release 13, SendReport] = [SetHat1 7] \<and>
   loop True left383 [(0xDF, 0xFF, 0xFF, 0x7F, 0xFF)] =
     Inr ([SetHat1 HAT_CENTERED, Press 13, SendReport], Some (pushed383, [])) \<and>
   wheelIdentified pushed383 \<and> bit2btn pushed383 ! (2 * 8 + 2) = 34 \<and>
   (currBytes pushed383 ! 2 AND pos ! 2) \<noteq> (prevBytes left383 ! 2 AND pos ! 2) \<and>
   currBytes pushed383 ! 2 AND pos ! 2 = 0 \<and>
   SetHat1 HAT_CENTERED \<in> set [SetHat1 HAT_CENTERED, Press 13, SendReport] \<and>
   filter isSetHat1 [SetHat1 HAT_CENTERED, Press 13, SendReport] = [SetHat1 HAT_CENTERED] \<and>
   processBit R383Btn [0x20, 0, 0x20, 0, 0] [0x20, 0, 0, 0, 0] 2 2 = Inr [SetHat1 7] \<and>
   processBit R383Btn [0x20, 0, 0, 0, 0] [0x20, 0, 0x20, 0, 0] 2 2 = Inr [SetHat1 HAT_CENTERED] \<and>
   wheelbyte (readWheel (0xFF, 0xFF, 0xFF, 0xFF, 0xFF)) \<notin> {192, 160, 32} \<and>
   wheelbyte (readWheel (0x5F, 0xFF, 0xFF, 0xFF, 0xFF)) \<in> {192, 160, 32} \<and>
   (\<exists>cq sq. loop True left383 [(0xFF, 0xFF, 0xFF, 0xFF, 0xFF), (0x5F, 0xFF, 0xFF, 0xFF, 0xFF)] =
      Inr (cq, Some (sq, [])))"
proof -
  have l1: "loop True pushed383 [(0xDF, 0xFF, 0xDF, 0x7F, 0xFF)] =
     Inr ([SetHat1 7, Release 13, SendReport], Some (left383, []))"
    by code_simp
  have l2: "loop True left383 [(0xDF, 0xFF, 0xFF, 0x7F, 0xFF)] =
     Inr ([SetHat1 HAT_CENTERED, Press 13, SendReport], Some (pushed383, []))"
    by code_simp
  have f: "wheelIdentified left383" "bit2btn left383 ! (2 * 8 + 2) = 34"
    "(currBytes left383 ! 2 AND pos ! 2) \<noteq> (prevBytes pushed383 ! 2 AND pos ! 2)"
    "currBytes left383 ! 2 AND pos ! 2 \<noteq> 0"
    "wheelIdentified pushed383" "bit2btn pushed383 ! (2 * 8 + 2) = 34"
    "(currBytes pushed383 ! 2 AND pos ! 2) \<noteq> (prevBytes left383 ! 2 AND pos ! 2)"
    "currBytes pushed383 ! 2 AND pos ! 2 = 0"
    by (simp_all add: left383_def pushed383_def R383Btn_def pos_def)
  have a1: "SetHat1 7 \<in> set [SetHat1 7, Release 13, SendReport]"
    using hat_bit_change[where s = pushed383 and p = "(0xDF, 0xFF, 0xDF, 0x7F, 0xFF)" and ps = "[]"
        and cs = "[SetHat1 7, Release 13, SendReport]" and s' = left383 and ps' = "[]"
        and i = 2 and b = 2] l1 f
    by simp
  have a2: "SetHat1 HAT_CENTERED \<in> set [SetHat1 HAT_CENTERED, Press 13, SendReport]"
    using hat_bit_change[where s = left383 and p = "(0xDF, 0xFF, 0xFF, 0x7F, 0xFF)" and ps = "[]"
        and cs = "[SetHat1 HAT_CENTERED, Press 13, SendReport]" and s' = pushed383 and ps' = "[]"
        and i = 2 and b = 2] l2 f
    by simp
  have p1: "processBit R383Btn [0x20, 0, 0x20, 0, 0] [0x20, 0, 0, 0, 0] 2 2 = Inr [SetHat1 7]"
    using hat_bit_change[where tbl = R383Btn and i = 2 and b = 2 and cb = "[0x20, 0, 0x20, 0, 0]"
        and pb = "[0x20, 0, 0, 0, 0]"]
    by (simp add: R383Btn_def pos_def)
  have p2: "processBit R383Btn [0x20, 0, 0, 0, 0] [0x20, 0, 0x20, 0, 0] 2 2 = Inr [SetHat1 HAT_CENTERED]"
    using hat_bit_change[where tbl = R383Btn and i = 2 and b = 2 and pb = "[0x20, 0, 0x20, 0, 0]"
        and cb = "[0x20, 0, 0, 0, 0]"]
    by (simp add: R383Btn_def pos_def)
  have ret: "wheelbyte (readWheel (0xFF, 0xFF, 0xFF, 0xFF, 0xFF)) \<notin> {192, 160, 32}"
    "wheelbyte (readWheel (0x5F, 0xFF, 0xFF, 0xFF, 0xFF)) \<in> {192, 160, 32}"
    by (simp_all add: wheelbyte_def)
  have ret': "\<exists>cq sq. loop True left383 [(0xFF, 0xFF, 0xFF, 0xFF, 0xFF), (0x5F, 0xFF, 0xFF, 0xFF, 0xFF)] =
      Inr (cq, Some (sq, []))"
    using hat_bit_change[where us = "[(0xFF, 0xFF, 0xFF, 0xFF, 0xFF)]" and q = "(0x5F, 0xFF, 0xFF, 0xFF, 0xFF)"
        and qs = "[]" and s = left383] ret
    by simp
  from l1 l2 f a1 a2 p1 p2 ret ret' show ?thesis by simp
qed

text \<open>
  C8. In each of the three tables the bit that carries the left paddle has the entry 0 and
  the bit that carries the right paddle the entry 1, which are the buttons 1 and 2 of the
  documented numbering. By the header comment the left paddle is bit 3 of Byte 1 on the
  F1 wheel, bit 4 of Byte 1 on the 599xx and bit 0 of Byte 3 on the R383; the right paddle
  is bit 2 of Byte 1, bit 3 of Byte 1 and bit 7 of Byte 2.
\<close>

theorem paddles_are_buttons_1_and_2:
  "officialNumber (F1Btn ! tableIndex 1 3) = 1 \<and>
   officialNumber (F599Btn ! tableIndex 1 4) = 1 \<and>
   officialNumber (R383Btn ! tableIndex 3 0) = 1 \<and>
   officialNumber (F1Btn ! tableIndex 1 2) = 2 \<and>
   officialNumber (F599Btn ! tableIndex 1 3) = 2 \<and>
   officialNumber (R383Btn ! tableIndex 2 7) = 2"
  by (simp add: officialNumber_def tableIndex_def F1Btn_def F599Btn_def R383Btn_def)

text \<open>
  C9. While no wheel is identified, a frame whose header \<open>byte0 & 0xE0\<close> is 160 and whose
  \<open>byte4 & 0x0F\<close> is 0 is identified as the 599xx wheel (\<^verbatim>\<open>wheelID\<close> 2, table
  \<^verbatim>\<open>F599Btn\<close>) in the same call of \<^verbatim>\<open>loop()\<close>, whatever the other bits are. No
  wheel is identified either because the call starts that way, or because unrecognised
  polls \<open>us\<close> sent it through the waiting loop first.
\<close>

theorem identify_599xx_first:
  assumes "wheelbyte (readWheel p) = 160" and "fifthbyte (readWheel p) = 0"
    and "\<forall>v\<in>set us. wheelbyte (readWheel v) \<notin> {192, 160, 32}"
    and "us = [] \<longrightarrow> \<not> wheelIdentified s"
  shows "\<exists>cs s'. loop True s (us @ p # ps) = Inr (cs, Some (s', ps)) \<and>
           wheelIdentified s' \<and> wheelID s' = 2 \<and> bit2btn s' = F599Btn"
proof (cases us)
  case Nil
  have pl: "plugged (currBytes (s\<lparr>currBytes := readWheel p\<rparr>))"
    using assms(1) by (simp add: plugged_iff)
  have n: "\<not> wheelIdentified s" using assms(4) Nil by simp
  show ?thesis unfolding Nil
    using assms(1,2) n
    by (simp add: loop_Inr_connected[OF waitForWheel_plugged[OF pl]] identify_seeking
        joyButton_not_sparco)
next
  case (Cons u us')
  have "\<not> plugged (readWheel u)" "\<forall>v\<in>set us'. \<not> plugged (readWheel v)" "plugged (readWheel p)"
    using assms(1,3) Cons by (simp_all add: plugged_iff)
  from loop_after_absence[OF this] show ?thesis unfolding Cons
    using assms(1,2) by simp
qed

theorem identify_599xx_first_witness:
  "wheelbyte (readWheel (0x5F, 0xFF, 0xFF, 0xFF, 0xFF)) = 160 \<and>
   fifthbyte (readWheel (0x5F, 0xFF, 0xFF, 0xFF, 0xFF)) = 0 \<and>
   \<not> wheelIdentified initial \<and>
   (\<exists>cs s'. loop True initial [(0x5F, 0xFF, 0xFF, 0xFF, 0xFF)] = Inr (cs, Some (s', [])) \<and>
           wheelIdentified s' \<and> wheelID s' = 2 \<and> bit2btn s' = F599Btn) \<and>
   readWheel (0x40, 0, 0, 0, 0x0F) = [0xBF, 0xFF, 0xFF, 0xFF, 0xF0] \<and>
   wheelbyte (readWheel (0x40, 0, 0, 0, 0x0F)) = 160 \<and>
   fifthbyte (readWheel (0x40, 0, 0, 0, 0x0F)) = 0 \<and>
   wheelbyte (readWheel (0xFF, 0xFF, 0xFF, 0xFF, 0xFF)) \<notin> {192, 160, 32} \<and>
   wheelbyte (readWheel (0, 0, 0, 0, 0)) \<notin> {192, 160, 32} \<and>
   (\<exists>cs s'. loop True held599 [(0xFF, 0xFF, 0xFF, 0xFF, 0xFF), (0, 0, 0, 0, 0), (0x40, 0, 0, 0, 0x0F)] =
             Inr (cs, Some (s', [])) \<and>
           wheelIdentified s' \<and> wheelID s' = 2 \<and> bit2btn s' = F599Btn)"
  using identify_599xx_first[where p = "(0x5F, 0xFF, 0xFF, 0xFF, 0xFF)" and us = "[]"
      and s = initial and ps = "[]"]
    identify_599xx_first[where p = "(0x40, 0, 0, 0, 0x0F)"
      and us = "[(0xFF, 0xFF, 0xFF, 0xFF, 0xFF), (0, 0, 0, 0, 0)]" and s = held599 and ps = "[]"]
  by (simp add: wheelbyte_def fifthbyte_def initial_def)

text \<open>
  C10. \<^verbatim>\<open>convertHat\<close> leaves \<^verbatim>\<open>hatstate\<close> unassigned exactly for arguments other than
  0, 1, 2, 3. Its only call passes a table entry between 31 and 34 minus 31, which is one
  of 0, 1, 2, 3; so neither the loop body, nor the differencing loops, nor a call of
  \<^verbatim>\<open>loop()\<close> ever reads the unassigned local, whatever the table, the frames and the
  state are.
\<close>

theorem convertHat_argument_in_range:
  "(convertHat hat = Inl UninitialisedHatstate \<longleftrightarrow> hat \<notin> {0, 1, 2, 3}) \<and>
   (31 \<le> e \<and> e \<le> 34 \<longrightarrow> e - 31 \<in> {0, 1, 2, 3} \<and> convertHat (e - 31) \<noteq> Inl err) \<and>
   processBit tbl cb pb i b \<noteq> Inl err \<and>
   diffBytes tbl cb pb \<noteq> Inl err \<and>
   loop connected s ps \<noteq> Inl err"
proof -
  have "convertHat hat = Inl UninitialisedHatstate \<longleftrightarrow> hat \<notin> {0, 1, 2, 3}"
    by (simp add: convertHat_cases)
  moreover have "e - 31 \<in> {0, 1, 2, 3} \<and> convertHat (e - 31) \<noteq> Inl err"
    if "31 \<le> e \<and> e \<le> 34"
    using that convertHat_tag[of e] by auto
  moreover have "processBit tbl cb pb i b \<noteq> Inl err"
    using processBit_Inr[of tbl cb pb i b] by auto
  moreover have "diffBytes tbl cb pb \<noteq> Inl err"
    by (simp add: diffBytes_Inr)
  moreover have "loop connected s ps \<noteq> Inl err"
    by (simp add: loop_def Let_def diffBytes_Inr split: list.splits prod.splits option.splits)
  ultimately show ?thesis by blast
qed

theorem convertHat_argument_in_range_witness:
  "convertHat 4 = Inl UninitialisedHatstate \<and> convertHat (- 32) = Inl UninitialisedHatstate \<and>
   (33 :: int) - 31 \<in> {0, 1, 2, 3} \<and> convertHat (33 - 31) = Inr [SetHat1 5] \<and>
   convertHat (33 - 31) \<noteq> Inl UninitialisedHatstate"
  using convertHat_argument_in_range[where hat = 4 and e = 33 and err = UninitialisedHatstate]
    convertHat_argument_in_range[where hat = "- 32" and e = 33]
  by (simp add: convertHat_cases)

end
